theory Spec2Isabelle
  imports Complex_Main "HOL-Library.Sublist" "HOL-Library.Multiset" "HOL-Library.Product_Lexorder"
begin

section \<open>Data model\<close>

text \<open>
  A candidate is the dictionary that \<^verbatim>\<open>parse_candidates_data\<close> builds (lines 172-180 of
  \<^verbatim>\<open>montarRanking.py\<close>): seven keys, always the same, so a record. The three scores are
  Python floats; the record is polymorphic in their type \<open>'f\<close>, which the extractor and
  the ranker take to be the type \<open>pyfloat\<close> of the section on numbers.
\<close>

record 'f candidate =
  registration :: string
  name :: string
  p1_score :: 'f
  p1_correct :: int
  p2_score :: 'f
  p2_correct :: int
  final_score :: 'f

section \<open>Strings\<close>

text \<open>
  A Python \<^verbatim>\<open>str\<close> is a sequence of code points. The model's alphabet is \<^typ>\<open>char\<close>,
  read as the code points 0 to 255 (so that the accented capitals of the header
  markers, code points 199, 195 and 193, are one character each, as in Python). The character classes below
  are Python's on that range: \<^verbatim>\<open>\d\<close> (Unicode decimal digits), \<^verbatim>\<open>\s\<close> and the
  characters \<^verbatim>\<open>str.strip()\<close> removes (Unicode white space), \<^verbatim>\<open>\w\<close> (alphanumerics
  and the underscore).
\<close>

definition is_digit :: "char \<Rightarrow> bool" where
  "is_digit c = (let n = (of_char c :: nat) in 48 \<le> n \<and> n \<le> 57)"

definition is_space :: "char \<Rightarrow> bool" where
  "is_space c =
     (let n = (of_char c :: nat)
      in (9 \<le> n \<and> n \<le> 13) \<or> (28 \<le> n \<and> n \<le> 32) \<or> n = 133 \<or> n = 160)"

definition is_word :: "char \<Rightarrow> bool" where
  "is_word c =
     (let n = (of_char c :: nat)
      in (48 \<le> n \<and> n \<le> 57) \<or> (65 \<le> n \<and> n \<le> 90) \<or> n = 95 \<or> (97 \<le> n \<and> n \<le> 122)
         \<or> n = 170 \<or> n = 178 \<or> n = 179 \<or> n = 181 \<or> n = 185 \<or> n = 186
         \<or> (188 \<le> n \<and> n \<le> 190) \<or> (192 \<le> n \<and> n \<le> 214) \<or> (216 \<le> n \<and> n \<le> 246)
         \<or> 248 \<le> n)"

text \<open>\<^verbatim>\<open>s.strip()\<close>: white space removed at both ends.\<close>

definition py_strip :: "string \<Rightarrow> string" where
  "py_strip s = rev (dropWhile is_space (rev (dropWhile is_space s)))"

text \<open>\<^verbatim>\<open>s.lower()\<close>: on the code points below 256 the upper-case letters are A to Z and
  the accented capitals 192 to 222 but the multiplication sign 215; each is 32 below
  its lower-case form.\<close>

definition lower_char :: "char \<Rightarrow> char" where
  "lower_char c =
     (let n = (of_char c :: nat)
      in if (65 \<le> n \<and> n \<le> 90) \<or> (192 \<le> n \<and> n \<le> 222 \<and> n \<noteq> 215)
         then char_of (n + 32) else c)"

definition py_lower :: "string \<Rightarrow> string" where
  "py_lower s = map lower_char s"

text \<open>\<^verbatim>\<open>s.endswith(t)\<close> and \<^verbatim>\<open>t in s\<close>.\<close>

definition py_endswith :: "string \<Rightarrow> string \<Rightarrow> bool" where
  "py_endswith s t = suffix t s"

text \<open>\<^verbatim>\<open>s.find(t)\<close>: the index of the first occurrence of \<open>t\<close> in \<open>s\<close>, if any.\<close>

fun py_find :: "string \<Rightarrow> string \<Rightarrow> nat option" where
  "py_find t [] = (if t = [] then Some 0 else None)"
| "py_find t (c # cs) =
     (if prefix t (c # cs) then Some 0 else map_option Suc (py_find t cs))"

definition py_contains :: "string \<Rightarrow> string \<Rightarrow> bool" where
  "py_contains t s = (py_find t s \<noteq> None)"

lemma py_find_bound: "py_find t s = Some i \<Longrightarrow> i + length t \<le> length s"
proof (induction s arbitrary: i)
  case Nil
  then show ?case by (simp split: if_splits)
next
  case (Cons c cs)
  show ?case
  proof (cases "prefix t (c # cs)")
    case True
    with Cons.prems show ?thesis by (auto dest: prefix_length_le)
  next
    case False
    with Cons.prems obtain j where "py_find t cs = Some j" "i = Suc j" by auto
    with Cons.IH show ?thesis by auto
  qed
qed

text \<open>
  \<^verbatim>\<open>s.split(sep)\<close> and \<^verbatim>\<open>s.replace(old, new)\<close> for a separator that is not empty (the
  program only ever passes literals): the occurrences are found from left to right and
  do not overlap. Python raises on an empty separator and interleaves on an empty
  \<open>old\<close>; neither is reachable, and the model returns the string unchanged there.
\<close>

function py_split :: "string \<Rightarrow> string \<Rightarrow> string list" where
  "py_split sep s =
     (if sep = [] then [s]
      else case py_find sep s of
             None \<Rightarrow> [s]
           | Some i \<Rightarrow> take i s # py_split sep (drop (i + length sep) s))"
  by pat_completeness auto
termination
proof (relation "measure (\<lambda>(sep, s). length s)")
  show "wf (measure (\<lambda>(sep, s). length s))" by simp
next
  fix sep s :: string and i
  assume "sep \<noteq> []" "py_find sep s = Some i"
  then have "i + length sep \<le> length s" "sep \<noteq> []"
    by (auto dest: py_find_bound)
  then show "((sep, drop (i + length sep) s), (sep, s)) \<in> measure (\<lambda>(sep, s). length s)"
    by (cases sep) auto
qed

function py_replace :: "string \<Rightarrow> string \<Rightarrow> string \<Rightarrow> string" where
  "py_replace old new s =
     (if old = [] then s
      else case py_find old s of
             None \<Rightarrow> s
           | Some i \<Rightarrow> take i s @ new @ py_replace old new (drop (i + length old) s))"
  by pat_completeness auto
termination
proof (relation "measure (\<lambda>(old, new, s). length s)")
  show "wf (measure (\<lambda>(old, new, s). length s))" by simp
next
  fix old new s :: string and i
  assume "old \<noteq> []" "py_find old s = Some i"
  then have "i + length old \<le> length s" "old \<noteq> []"
    by (auto dest: py_find_bound)
  then show "((old, new, drop (i + length old) s), (old, new, s)) \<in> measure (\<lambda>(old, new, s). length s)"
    by (cases old) auto
qed

declare py_split.simps [simp del] py_replace.simps [simp del]

section \<open>Regular expressions\<close>

text \<open>
  The three patterns of the program are sequences of character classes, each taken once
  or repeated greedily (\<^verbatim>\<open>*\<close>, \<^verbatim>\<open>+\<close>), with capturing groups around runs of them. An
  item is a class, its quantifier and the number of the group it stands in (0 for none).
\<close>

datatype quant = Once | Star | Plus

type_synonym item = "(char \<Rightarrow> bool) \<times> quant \<times> nat"

text \<open>
  Python's \<^verbatim>\<open>re\<close> is a backtracking matcher: a greedy quantifier first takes as many
  characters as it can and gives them back one at a time while the rest of the pattern
  fails. \<open>rep_lengths\<close> lists the lengths an item may take at the head of \<open>s\<close>, in the
  order they are tried.
\<close>

fun rep_lengths :: "(char \<Rightarrow> bool) \<Rightarrow> quant \<Rightarrow> string \<Rightarrow> nat list" where
  "rep_lengths cls Once s = (case s of [] \<Rightarrow> [] | c # _ \<Rightarrow> if cls c then [1] else [])"
| "rep_lengths cls Star s = rev [0..<Suc (length (takeWhile cls s))]"
| "rep_lengths cls Plus s = rev [1..<Suc (length (takeWhile cls s))]"

fun first_some :: "('a \<Rightarrow> 'b option) \<Rightarrow> 'a list \<Rightarrow> 'b option" where
  "first_some f [] = None"
| "first_some f (x # xs) = (case f x of Some y \<Rightarrow> Some y | None \<Rightarrow> first_some f xs)"

text \<open>\<open>match_items pat s\<close>: the first way, in backtracking order, to match \<open>pat\<close> at the
  head of \<open>s\<close>, as the list of the pieces of \<open>s\<close> the items took.\<close>

primrec match_items :: "item list \<Rightarrow> string \<Rightarrow> string list option" where
  "match_items [] s = Some []"
| "match_items (it # its) s =
     first_some (\<lambda>k. map_option ((#) (take k s)) (match_items its (drop k s)))
       (rep_lengths (fst it) (fst (snd it)) s)"

text \<open>\<^verbatim>\<open>re.search(pat, s)\<close>: the match at the leftmost position where one starts; the
  result is that position and the pieces.\<close>

definition re_search :: "item list \<Rightarrow> string \<Rightarrow> (nat \<times> string list) option" where
  "re_search pat s =
     first_some (\<lambda>i. map_option (Pair i) (match_items pat (drop i s))) [0..<Suc (length s)]"

text \<open>\<^verbatim>\<open>m.group(g)\<close> and \<^verbatim>\<open>m.groups()\<close> for a pattern with \<open>n\<close> groups.\<close>

definition re_group :: "item list \<Rightarrow> string list \<Rightarrow> nat \<Rightarrow> string" where
  "re_group pat pieces g =
     concat (map snd (filter (\<lambda>(it, p). snd (snd it) = g) (zip pat pieces)))"

definition re_groups :: "item list \<Rightarrow> nat \<Rightarrow> string list \<Rightarrow> string list" where
  "re_groups pat n pieces = map (re_group pat pieces) [1..<Suc n]"

text \<open>
  What a match is, apart from the order in which the matcher looks for one: a list of
  pieces, one for each item, every character of a piece in the item's class, the piece
  one character long for an item taken once and not empty for an item taken with \<^verbatim>\<open>+\<close>.
  A string matches the pattern when it is the concatenation of such pieces.
\<close>

definition item_ok :: "item \<Rightarrow> string \<Rightarrow> bool" where
  "item_ok it p =
     (list_all (fst it) p
      \<and> (case fst (snd it) of Once \<Rightarrow> length p = 1 | Star \<Rightarrow> True | Plus \<Rightarrow> p \<noteq> []))"

definition matches :: "item list \<Rightarrow> string list \<Rightarrow> bool" where
  "matches pat pieces = list_all2 item_ok pat pieces"

text \<open>
  A match that the matcher finds at its first attempt: every piece is as long as it can
  be, because what follows a piece taken with \<^verbatim>\<open>*\<close> or \<^verbatim>\<open>+\<close> is not in the item's class.
  Here \<open>r\<close> is the text after the match.
\<close>

fun greedy :: "item list \<Rightarrow> string list \<Rightarrow> string \<Rightarrow> bool" where
  "greedy [] [] r = True"
| "greedy (it # its) (p # ps) r =
     (item_ok it p
      \<and> (fst (snd it) = Once \<or> concat ps @ r = [] \<or> \<not> fst it (hd (concat ps @ r)))
      \<and> greedy its ps r)"
| "greedy _ _ _ = False"

definition lit :: "char \<Rightarrow> nat \<Rightarrow> item" where
  "lit c g = ((\<lambda>x. x = c), Once, g)"

text \<open>Line 117: the primary pattern,
  \<^verbatim>\<open>(\d+),\s*([\w\s.\-\']+),\s*(\d+\.\d+),\s*(\d+),\s*(\d+\.\d+),\s*(\d+),\s*(\d+\.\d+)\<close>.\<close>

definition is_name_char :: "char \<Rightarrow> bool" where
  "is_name_char c =
     (is_word c \<or> is_space c \<or> c = CHR ''.'' \<or> c = CHR ''-'' \<or> c = CHR 0x27)"

definition sep_items :: "item list" where
  "sep_items = [lit CHR '','' 0, (is_space, Star, 0)]"

definition int_items :: "nat \<Rightarrow> item list" where
  "int_items g = [(is_digit, Plus, g)]"

definition dec_items :: "nat \<Rightarrow> item list" where
  "dec_items g = [(is_digit, Plus, g), lit CHR ''.'' g, (is_digit, Plus, g)]"

definition primary_pattern :: "item list" where
  "primary_pattern =
     int_items 1 @ sep_items @ [(is_name_char, Plus, 2)] @ sep_items @ dec_items 3 @ sep_items
     @ int_items 4 @ sep_items @ dec_items 5 @ sep_items @ int_items 6 @ sep_items @ dec_items 7"

text \<open>Line 75: the title pattern, \<^verbatim>\<open>OP\<close>, code points 199 and 195, \<^verbatim>\<open>O (\d+): (.+)\<close>;
  the dot matches every character but the newline.\<close>

definition OPCAO :: string where
  "OPCAO = ''OP'' @ [CHR 0xC7, CHR 0xC3] @ ''O''"

definition SUBAREA :: string where
  "SUBAREA = ''SUB'' @ [CHR 0xC1] @ ''REA:''"

definition title_pattern :: "item list" where
  "title_pattern =
     map (\<lambda>c. lit c 0) (OPCAO @ '' '') @ [(is_digit, Plus, 1)] @ map (\<lambda>c. lit c 0) '': ''
     @ [((\<lambda>c. c \<noteq> CHR 0x0A), Plus, 2)]"

text \<open>Line 86: the pattern of a decimal point cut off from its fraction,
  \<^verbatim>\<open>(\d+)\.\s+(\d+)\<close>.\<close>

definition decimal_pattern :: "item list" where
  "decimal_pattern = [(is_digit, Plus, 1), lit CHR ''.'' 0, (is_space, Plus, 0), (is_digit, Plus, 2)]"

section \<open>Numbers\<close>

text \<open>
  \<^verbatim>\<open>int(s)\<close> and \<^verbatim>\<open>float(s)\<close> raise \<^verbatim>\<open>ValueError\<close> on a string they cannot read; the
  result \<open>None\<close> stands for that exception. Both strip white space at the ends, take an
  optional sign, and allow single underscores between digits.
\<close>

fun valid_digitpart :: "string \<Rightarrow> bool" where
  "valid_digitpart [] = False"
| "valid_digitpart [c] = is_digit c"
| "valid_digitpart (c # d # cs) =
     (is_digit c \<and> (if d = CHR ''_'' then valid_digitpart cs else valid_digitpart (d # cs)))"

definition digit_val :: "char \<Rightarrow> nat" where
  "digit_val c = of_char c - 48"

definition nat_of_digits :: "string \<Rightarrow> nat" where
  "nat_of_digits s = foldl (\<lambda>a c. 10 * a + digit_val c) 0 (filter is_digit s)"

text \<open>A numeral of the patterns, \<^verbatim>\<open>\d+\<close>: one decimal digit or more. And the value of
  the decimal \<^verbatim>\<open>\d+\.\d+\<close> with the digits \<open>d1\<close> before the point and \<open>d2\<close> after it.\<close>

definition digits :: "string \<Rightarrow> bool" where
  "digits s = (s \<noteq> [] \<and> list_all is_digit s)"

definition decimal_value :: "string \<Rightarrow> string \<Rightarrow> rat" where
  "decimal_value d1 d2 = of_nat (nat_of_digits (d1 @ d2)) / 10 ^ length d2"

definition split_sign :: "string \<Rightarrow> bool \<times> string" where
  "split_sign s =
     (case s of
        c # cs \<Rightarrow> if c = CHR ''-'' then (True, cs) else if c = CHR ''+'' then (False, cs) else (False, s)
      | [] \<Rightarrow> (False, s))"

text \<open>\<^verbatim>\<open>int(s)\<close>, base 10. The interpreter refuses to convert more than
  \<^verbatim>\<open>sys.int_info.default_max_str_digits\<close> digits, 4300 unless the limit has been reset, and
  raises \<^verbatim>\<open>ValueError\<close>; the digits are counted without the sign, the blanks around the
  number and the underscores, and with the leading zeros.\<close>

definition max_str_digits :: nat where
  "max_str_digits = 4300"

definition py_int :: "string \<Rightarrow> int option" where
  "py_int s =
     (let (neg, body) = split_sign (py_strip s)
      in if valid_digitpart body \<and> length (filter is_digit body) \<le> max_str_digits
         then Some (if neg then - int (nat_of_digits body) else int (nat_of_digits body))
         else None)"

text \<open>
  A float is modelled by the exact value of the decimal it was read from; rounding to
  binary64 (and overflow to infinity) is not modelled. Besides the finite values there
  are the two infinities and NaN, which \<^verbatim>\<open>float\<close> reads from \<^verbatim>\<open>inf\<close>, \<^verbatim>\<open>infinity\<close> and
  \<^verbatim>\<open>nan\<close> in any case of letters.
\<close>

datatype pyfloat = Finite rat | Infinity bool | NaN

text \<open>
  The finite literals: \<^verbatim>\<open>digits [. [digits]] [exponent]\<close> or \<^verbatim>\<open>. digits [exponent]\<close>, the
  exponent being \<^verbatim>\<open>e\<close> or \<^verbatim>\<open>E\<close>, an optional sign and digits. \<open>parse_mantissa\<close> splits
  the part before the exponent into its integer and fraction digits.
\<close>

definition parse_mantissa :: "string \<Rightarrow> (string \<times> string) option" where
  "parse_mantissa m =
     (let ip = takeWhile (\<lambda>c. c \<noteq> CHR ''.'') m; r = dropWhile (\<lambda>c. c \<noteq> CHR ''.'') m
      in case r of
           [] \<Rightarrow> if valid_digitpart ip then Some (ip, []) else None
         | _ # fp \<Rightarrow>
             if (ip = [] \<or> valid_digitpart ip) \<and> (fp = [] \<or> valid_digitpart fp)
                \<and> \<not> (ip = [] \<and> fp = [])
             then Some (ip, fp) else None)"

definition parse_exponent :: "string \<Rightarrow> int option" where
  "parse_exponent e =
     (let (neg, body) = split_sign e
      in if valid_digitpart body
         then Some (if neg then - int (nat_of_digits body) else int (nat_of_digits body))
         else None)"

definition scale10 :: "rat \<Rightarrow> int \<Rightarrow> rat" where
  "scale10 q e = (if 0 \<le> e then q * 10 ^ nat e else q / 10 ^ nat (- e))"

definition is_exp_char :: "char \<Rightarrow> bool" where
  "is_exp_char c = (c = CHR ''e'' \<or> c = CHR ''E'')"

definition parse_finite :: "string \<Rightarrow> rat option" where
  "parse_finite body =
     (let m = takeWhile (\<lambda>c. \<not> is_exp_char c) body; r = dropWhile (\<lambda>c. \<not> is_exp_char c) body
      in case parse_mantissa m of
           None \<Rightarrow> None
         | Some (ip, fp) \<Rightarrow>
             (let digs = filter is_digit ip @ filter is_digit fp;
                  frac = int (length (filter is_digit fp))
              in case r of
                   [] \<Rightarrow> Some (scale10 (of_nat (nat_of_digits digs)) (- frac))
                 | _ # e \<Rightarrow>
                     (case parse_exponent e of
                        None \<Rightarrow> None
                      | Some x \<Rightarrow> Some (scale10 (of_nat (nat_of_digits digs)) (x - frac)))))"

definition py_float :: "string \<Rightarrow> pyfloat option" where
  "py_float s =
     (let (neg, body) = split_sign (py_strip s); low = py_lower body
      in if low = ''inf'' \<or> low = ''infinity'' then Some (Infinity neg)
         else if low = ''nan'' then Some NaN
         else case parse_finite body of
                None \<Rightarrow> None
              | Some q \<Rightarrow> Some (Finite (if neg then - q else q)))"

text \<open>
  \<^verbatim>\<open>str(i)\<close> for an integer, and \<^verbatim>\<open>str(x)\<close> for a float. Python prints the shortest
  decimal that reads back as the same float; the model prints the exact decimal
  expansion of the value, with at least one digit after the point. (Every float is a
  dyadic rational and has a finite expansion; \<open>decimal_places\<close> finds its length. For
  the other rationals, which no float is, the search stops at the denominator.)
  The limit of digits holds for \<^verbatim>\<open>str(i)\<close> too; the program prints only results of
  \<^verbatim>\<open>int\<close>, which are within it.
\<close>

fun str_nat :: "nat \<Rightarrow> string" where
  "str_nat n =
     (if n < 10 then [char_of (48 + n)] else str_nat (n div 10) @ [char_of (48 + n mod 10)])"

declare str_nat.simps [simp del]

definition py_str_int :: "int \<Rightarrow> string" where
  "py_str_int i = (if i < 0 then ''-'' @ str_nat (nat (- i)) else str_nat (nat i))"

fun dec_places :: "nat \<Rightarrow> nat \<Rightarrow> nat \<Rightarrow> nat" where
  "dec_places d k 0 = k"
| "dec_places d k (Suc fuel) = (if d dvd 10 ^ k then k else dec_places d (Suc k) fuel)"

definition decimal_places :: "nat \<Rightarrow> nat" where
  "decimal_places d = dec_places d 0 d"

definition py_str_float :: "pyfloat \<Rightarrow> string" where
  "py_str_float x =
     (case x of
        NaN \<Rightarrow> ''nan''
      | Infinity neg \<Rightarrow> (if neg then ''-inf'' else ''inf'')
      | Finite q \<Rightarrow>
          (let (n, d) = quotient_of q;
               k = decimal_places (nat d);
               m = nat \<bar>n\<bar> * 10 ^ k div nat d;
               ds = str_nat m;
               padded = replicate (Suc k - length ds) CHR ''0'' @ ds;
               ip = take (length padded - k) padded;
               fp = drop (length padded - k) padded
           in (if n < 0 then ''-'' else []) @ ip @ ''.'' @ (if fp = [] then ''0'' else fp)))"

section \<open>The record extractor\<close>

text \<open>
  What the program prints is kept as a list of events, for the diagnostics the claims
  speak of: lines 123, 145, 147, 184-185 and 191.
  (Progress bars, spinners, colours and the summary lines are left out.)
\<close>

datatype file_format = Xlsx | Csv | Txt

datatype event =
    TryingAlternative string
  | ParsedManually
  | FailedToParse "string list"
  | ErrorProcessingCandidate "string list"
  | ErrorProcessingFile

text \<open>Lines 118-121: \<^verbatim>\<open>re.search(pattern, chunk)\<close> and, on a match, \<^verbatim>\<open>match.groups()\<close>.\<close>

definition primary_match :: "string \<Rightarrow> string list option" where
  "primary_match chunk =
     map_option (\<lambda>(i, pieces). re_groups primary_pattern 7 pieces) (re_search primary_pattern chunk)"

text \<open>Lines 129-131: the loop over the indices 2 to 6 that removes the blanks inside the
  numeric parts.\<close>

definition clean_numeric_parts :: "string list \<Rightarrow> string list" where
  "clean_numeric_parts parts =
     map (\<lambda>(i, p). if 2 \<le> i \<and> i < 7 then py_replace '' '' [] p else p) (enumerate 0 parts)"

text \<open>Lines 133-147, for a list of at least seven parts: the five coercions, and the
  entry built from their results; \<open>None\<close> when one of them raises.\<close>

definition fallback_entry :: "string list \<Rightarrow> string list option" where
  "fallback_entry parts =
     (case (py_float (parts ! 2), py_int (parts ! 3), py_float (parts ! 4),
            py_int (parts ! 5), py_float (parts ! 6)) of
        (Some s1, Some c1, Some s2, Some c2, Some fs) \<Rightarrow>
          Some [parts ! 0, parts ! 1, py_str_float s1, py_str_int c1,
                py_str_float s2, py_str_int c2, py_str_float fs]
      | _ \<Rightarrow> None)"

record scan_state =
  started :: bool
  entries :: "string list list"
  events :: "event list"

text \<open>Lines 116-147: what is done with a chunk once the header has been dealt with.\<close>

definition extract_entry :: "string \<Rightarrow> scan_state \<Rightarrow> scan_state" where
  "extract_entry chunk st =
     (case primary_match chunk of
        Some groups \<Rightarrow> st\<lparr>entries := entries st @ [groups]\<rparr>
      | None \<Rightarrow>
          (let st1 = st\<lparr>events := events st @ [TryingAlternative chunk]\<rparr>;
               parts = map py_strip (py_split '','' chunk)
           in if 7 \<le> length parts
              then (let parts' = clean_numeric_parts parts
                    in case fallback_entry parts' of
                         Some entry \<Rightarrow>
                           st1\<lparr>entries := entries st1 @ [entry], events := events st1 @ [ParsedManually]\<rparr>
                       | None \<Rightarrow> st1\<lparr>events := events st1 @ [FailedToParse parts']\<rparr>)
              else st1))"

text \<open>
  Lines 99-114: the chunk that goes on to the patterns, if any. An empty chunk is skipped;
  so is a chunk with the header marker, seen before any candidate, that has no section
  marker; with the section marker, what follows its first occurrence is the chunk.
\<close>

definition select_chunk :: "bool \<Rightarrow> string \<Rightarrow> string option" where
  "select_chunk candidates_data_started raw =
     (let chunk = py_strip raw
      in if chunk = [] then None
         else if \<not> candidates_data_started \<and> py_contains OPCAO chunk
         then (let parts = py_split SUBAREA chunk
               in if 1 < length parts then Some (py_strip (parts ! 1)) else None)
         else Some chunk)"

text \<open>Lines 98-147: one turn of the loop over the chunks.\<close>

definition process_chunk :: "scan_state \<Rightarrow> string \<Rightarrow> scan_state" where
  "process_chunk st raw =
     (case select_chunk (started st) raw of
        None \<Rightarrow> st
      | Some chunk \<Rightarrow> extract_entry chunk (st\<lparr>started := True\<rparr>))"

text \<open>Lines 164-181: the candidate built from an entry; \<open>None\<close> when an index is out of
  range or a coercion raises (lines 183-185).\<close>

definition make_candidate :: "string list \<Rightarrow> pyfloat candidate option" where
  "make_candidate entry =
     (if length entry < 7 then None
      else case (py_float (entry ! 2), py_int (entry ! 3), py_float (entry ! 4),
                 py_int (entry ! 5), py_float (entry ! 6)) of
             (Some s1, Some c1, Some s2, Some c2, Some fs) \<Rightarrow>
               Some \<lparr>registration = py_strip (entry ! 0), name = py_strip (entry ! 1),
                     p1_score = s1, p1_correct = c1, p2_score = s2, p2_correct = c2,
                     final_score = fs\<rparr>
           | _ \<Rightarrow> None)"

text \<open>Lines 152-185: the loop over the entries, with the candidates and the events so far.\<close>

definition process_entry ::
  "pyfloat candidate list \<times> event list \<Rightarrow> string list \<Rightarrow> pyfloat candidate list \<times> event list" where
  "process_entry acc entry =
     (case make_candidate entry of
        Some candidate \<Rightarrow> (fst acc @ [candidate], snd acc)
      | None \<Rightarrow> (fst acc, snd acc @ [ErrorProcessingCandidate entry]))"

text \<open>Line 86: \<^verbatim>\<open>re.sub(r'(\d+)\.\s+(\d+)', r'\1.\2', content)\<close>. The matches are found from
  left to right, each search starting where the match before ended, and each is replaced
  by its two groups with the point between them.\<close>

definition matched_length :: "string list \<Rightarrow> nat" where
  "matched_length pieces = length (concat pieces)"

lemma first_some_SomeD: "first_some f xs = Some y \<Longrightarrow> \<exists>x\<in>set xs. f x = Some y"
  by (induction xs) (auto split: option.splits)

lemma match_items_prefix: "match_items pat s = Some ps \<Longrightarrow> prefix (concat ps) s"
proof (induction pat arbitrary: s ps)
  case Nil
  then show ?case by simp
next
  case (Cons it its)
  from Cons.prems obtain k qs where
    qs: "match_items its (drop k s) = Some qs" and ps: "ps = take k s # qs"
    by (auto dest!: first_some_SomeD)
  from Cons.IH [OF qs] obtain r where "drop k s = concat qs @ r"
    by (auto simp: prefix_def)
  then have "s = take k s @ concat qs @ r"
    by (metis append_take_drop_id)
  then show ?case
    unfolding ps prefix_def by (metis append.assoc concat.simps(2))
qed

lemma re_search_bound:
  "re_search pat s = Some (i, ps) \<Longrightarrow> i + matched_length ps \<le> length s"
proof -
  assume "re_search pat s = Some (i, ps)"
  then have i: "i \<le> length s" and m: "match_items pat (drop i s) = Some ps"
    by (auto simp: re_search_def dest!: first_some_SomeD)
  from match_items_prefix [OF m] have "length (concat ps) \<le> length (drop i s)"
    by (rule prefix_length_le)
  with i show ?thesis
    by (simp add: matched_length_def)
qed

function re_sub :: "item list \<Rightarrow> (string list \<Rightarrow> string) \<Rightarrow> string \<Rightarrow> string" where
  "re_sub pat repl s =
     (case re_search pat s of
        None \<Rightarrow> s
      | Some (i, pieces) \<Rightarrow>
          if matched_length pieces = 0 then s
          else take i s @ repl pieces @ re_sub pat repl (drop (i + matched_length pieces) s))"
  by pat_completeness auto
termination
proof (relation "measure (\<lambda>(pat, repl, s). length s)")
  show "wf (measure (\<lambda>(pat, repl, s). length s))" by simp
next
  fix pat :: "item list" and repl :: "string list \<Rightarrow> string" and s :: string and x i pieces
  assume "re_search pat s = Some x" "(i, pieces) = x" "matched_length pieces \<noteq> 0"
  then have "i + matched_length pieces \<le> length s" "0 < matched_length pieces"
    by (auto dest: re_search_bound)
  then show "((pat, repl, drop (i + matched_length pieces) s), (pat, repl, s))
             \<in> measure (\<lambda>(pat, repl, s). length s)"
    by simp
qed

declare re_sub.simps [simp del]

definition fix_decimals :: "string \<Rightarrow> string" where
  "fix_decimals content =
     re_sub decimal_pattern
       (\<lambda>pieces. re_group decimal_pattern pieces 1 @ ''.'' @ re_group decimal_pattern pieces 2)
       content"

text \<open>Line 89: \<^verbatim>\<open>content.replace('\n', ' ').replace('  ', ' ')\<close>.\<close>

definition clean_content :: "string \<Rightarrow> string" where
  "clean_content content = py_replace ''  '' '' '' (py_replace [CHR 0x0A] '' '' content)"

text \<open>Lines 75-78: the option number and title, or \<^verbatim>\<open>"Unknown"\<close> twice.\<close>

definition extract_title :: "string \<Rightarrow> string \<times> string" where
  "extract_title content =
     (case re_search title_pattern content of
        Some (i, pieces) \<Rightarrow> (re_group title_pattern pieces 1, re_group title_pattern pieces 2)
      | None \<Rightarrow> (''Unknown'', ''Unknown''))"

definition initial_state :: scan_state where
  "initial_state = \<lparr>started = False, entries = [], events = []\<rparr>"

text \<open>Lines 72-188: everything after the file has been read. The result is the triple
  the function returns, and the events.\<close>

definition parse_content ::
  "string \<Rightarrow> (string \<times> string \<times> pyfloat candidate list) \<times> event list" where
  "parse_content content =
     (let (option_number, option_title) = extract_title content;
          cleaned_content = clean_content (fix_decimals content);
          candidate_chunks = py_split ''/'' cleaned_content;
          st = foldl process_chunk initial_state candidate_chunks;
          (candidates, evs) = foldl process_entry ([], events st) (entries st)
      in ((option_number, option_title, candidates), evs))"

text \<open>
  \<^verbatim>\<open>parse_candidates_data\<close> (lines 60-192). The file system is outside the model: the
  argument is what \<^verbatim>\<open>open\<close> and \<^verbatim>\<open>read\<close> give, \<open>Some\<close> of the content, or \<open>None\<close> when
  either raises (a missing or unreadable file), which the handler of lines 190-192
  turns into the empty result.
\<close>

definition parse_candidates_data ::
  "string option \<Rightarrow> (string \<times> string \<times> pyfloat candidate list) \<times> event list" where
  "parse_candidates_data file =
     (case file of
        None \<Rightarrow> ((''Unknown'', ''Unknown'', []), [ErrorProcessingFile])
      | Some content \<Rightarrow> parse_content content)"

section \<open>The report builder\<close>

text \<open>
  Lines 363-367, 387-390 and 409-412: the name the report is saved under. \<open>ext\<close> is the
  extension of the chosen format, \<open>a\<close> and \<open>b\<close> the two extensions replaced by it, in
  the order of the two \<^verbatim>\<open>replace\<close> calls.
\<close>

definition output_name :: "string \<Rightarrow> string \<Rightarrow> string \<Rightarrow> string \<Rightarrow> string" where
  "output_name ext a b output_file =
     (if \<not> py_endswith (py_lower output_file) ext
      then (let renamed = py_replace b ext (py_replace a ext output_file)
            in if \<not> py_endswith (py_lower renamed) ext then renamed @ ext else renamed)
      else output_file)"

text \<open>
  \<^verbatim>\<open>display_ranking\<close> (lines 295-440), as far as the claims go: the notice for an empty
  list, and the file written. \<open>output_file\<close> is \<open>None\<close> for Python's \<^verbatim>\<open>None\<close>; an empty
  name is as good as none (line 360). \<open>can_write\<close> says whether writing to a path
  succeeds; when it does not, the exception is caught (line 439) and reported.
\<close>

datatype report_event = NoCandidates | SavedTo file_format string | ErrorWriting file_format string

definition display_ranking ::
  "(string \<Rightarrow> bool) \<Rightarrow> string \<Rightarrow> string \<Rightarrow> 'f candidate list \<Rightarrow> string \<Rightarrow> string option
   \<Rightarrow> report_event list" where
  "display_ranking can_write option_number option_title candidates output_format output_file =
     (if candidates = [] then [NoCandidates]
      else case output_file of
             None \<Rightarrow> []
           | Some file \<Rightarrow>
               if file = [] then []
               else (let (fmt, target) =
                           (if py_lower output_format = ''xlsx''
                            then (Xlsx, output_name ''.xlsx'' ''.txt'' ''.csv'' file)
                            else if py_lower output_format = ''csv''
                            then (Csv, output_name ''.csv'' ''.txt'' ''.xlsx'' file)
                            else (Txt, output_name ''.txt'' ''.csv'' ''.xlsx'' file))
                     in if can_write target then [SavedTo fmt target]
                        else [ErrorWriting fmt target]))"

section \<open>The ranker\<close>

text \<open>
  Python's \<^verbatim>\<open><\<close> and \<^verbatim>\<open><=\<close> on floats: every comparison with NaN is false, the
  infinities are below and above every finite value, and finite values compare as
  numbers.
\<close>

definition pf_lt :: "pyfloat \<Rightarrow> pyfloat \<Rightarrow> bool" where
  "pf_lt x y =
     (case (x, y) of
        (Finite a, Finite b) \<Rightarrow> a < b
      | (Finite a, Infinity neg) \<Rightarrow> \<not> neg
      | (Infinity neg, Finite b) \<Rightarrow> neg
      | (Infinity neg, Infinity neg') \<Rightarrow> neg \<and> \<not> neg'
      | _ \<Rightarrow> False)"

definition pf_le :: "pyfloat \<Rightarrow> pyfloat \<Rightarrow> bool" where
  "pf_le x y = (x \<noteq> NaN \<and> y \<noteq> NaN \<and> (pf_lt x y \<or> x = y))"

text \<open>
  \<^verbatim>\<open>sorted(xs, key=k, reverse=r)\<close> returns a new list, sorted by CPython's list sort,
  which compares keys with \<^verbatim>\<open><\<close> only (\<open>lt a b\<close> below is that comparison of the keys
  of \<open>a\<close> and \<open>b\<close>). On a list of fewer than 64 elements the sort is: find the run the
  list starts with (\<^verbatim>\<open>count_run\<close>: either no element less than the one before it, or
  every element less than the one before it, and then the run is reversed), and insert
  the remaining elements one by one by binary search (\<^verbatim>\<open>binarysort\<close>), each after the
  elements it is not less than. On a longer list CPython cuts the list into such runs
  and merges them; the result is the same stable sort whenever \<^verbatim>\<open><\<close> orders the keys,
  and the model leaves the merging out, so that with NaN keys it follows CPython on
  lists of fewer than 64 elements only. With \<^verbatim>\<open>reverse=True\<close> the list is reversed, sorted,
  and reversed again, which keeps equal keys in their input order.
\<close>

fun desc_run :: "('a \<Rightarrow> 'a \<Rightarrow> bool) \<Rightarrow> 'a \<Rightarrow> 'a list \<Rightarrow> nat" where
  "desc_run lt prev [] = 0"
| "desc_run lt prev (x # xs) = (if lt x prev then Suc (desc_run lt x xs) else 0)"

fun asc_run :: "('a \<Rightarrow> 'a \<Rightarrow> bool) \<Rightarrow> 'a \<Rightarrow> 'a list \<Rightarrow> nat" where
  "asc_run lt prev [] = 0"
| "asc_run lt prev (x # xs) = (if lt x prev then 0 else Suc (asc_run lt x xs))"

fun count_run :: "('a \<Rightarrow> 'a \<Rightarrow> bool) \<Rightarrow> 'a list \<Rightarrow> nat \<times> bool" where
  "count_run lt [] = (0, False)"
| "count_run lt [x] = (1, False)"
| "count_run lt (x # y # ys) =
     (if lt y x then (2 + desc_run lt y ys, True) else (2 + asc_run lt y ys, False))"

function bsearch :: "('a \<Rightarrow> 'a \<Rightarrow> bool) \<Rightarrow> 'a \<Rightarrow> 'a list \<Rightarrow> nat \<Rightarrow> nat \<Rightarrow> nat" where
  "bsearch lt pivot pre l r =
     (if l < r
      then (let p = l + (r - l) div 2
            in if lt pivot (pre ! p) then bsearch lt pivot pre l p
               else bsearch lt pivot pre (Suc p) r)
      else l)"
  by pat_completeness auto
termination
  by (relation "measure (\<lambda>(lt, pivot, pre, l, r). r - l)") auto

declare bsearch.simps [simp del]

definition binsert :: "('a \<Rightarrow> 'a \<Rightarrow> bool) \<Rightarrow> 'a \<Rightarrow> 'a list \<Rightarrow> 'a list" where
  "binsert lt pivot pre =
     (let l = bsearch lt pivot pre 0 (length pre) in take l pre @ pivot # drop l pre)"

definition binarysort :: "('a \<Rightarrow> 'a \<Rightarrow> bool) \<Rightarrow> 'a list \<Rightarrow> 'a list \<Rightarrow> 'a list" where
  "binarysort lt run rest = foldl (\<lambda>acc x. binsert lt x acc) run rest"

definition list_sort :: "('a \<Rightarrow> 'a \<Rightarrow> bool) \<Rightarrow> 'a list \<Rightarrow> 'a list" where
  "list_sort lt xs =
     (let (n, descending) = count_run lt xs; run = take n xs
      in binarysort lt (if descending then rev run else run) (drop n xs))"

definition py_sorted :: "('a \<Rightarrow> 'a \<Rightarrow> bool) \<Rightarrow> bool \<Rightarrow> 'a list \<Rightarrow> 'a list" where
  "py_sorted lt reverse xs = (if reverse then rev (list_sort lt (rev xs)) else list_sort lt xs)"

text \<open>
  \<^verbatim>\<open>build_ranking\<close> (lines 194-211): the progress bar aside, one call of \<^verbatim>\<open>sorted\<close>
  with \<^verbatim>\<open>key=itemgetter('final_score'), reverse=True\<close>.
\<close>

definition build_ranking :: "pyfloat candidate list \<Rightarrow> pyfloat candidate list" where
  "build_ranking candidates =
     py_sorted (\<lambda>a b. pf_lt (final_score a) (final_score b)) True candidates"

text \<open>For the proofs: a rank that orders the floats other than NaN as \<^verbatim>\<open><\<close> does.\<close>

definition pf_rank :: "pyfloat \<Rightarrow> nat \<times> rat" where
  "pf_rank x =
     (case x of
        Infinity neg \<Rightarrow> (if neg then (0, 0) else (2, 0))
      | Finite q \<Rightarrow> (1, q)
      | NaN \<Rightarrow> (3, 0))"

text \<open>For the examples: a candidate with a registration and one score for all three.\<close>

definition cand :: "string \<Rightarrow> pyfloat \<Rightarrow> pyfloat candidate" where
  "cand r s = \<lparr>registration = r, name = ''N'', p1_score = s, p1_correct = 1, p2_score = s,
               p2_correct = 1, final_score = s\<rparr>"

text \<open>
  The lists of the program are objects on a heap: \<^verbatim>\<open>candidates\<close> is a reference, and a
  callee could change the list it points to (as \<^verbatim>\<open>candidates.sort()\<close> would). The heap
  maps addresses to list values; \<open>next_free\<close> is the first address never allocated.
\<close>

record 'a heap =
  cells :: "nat \<Rightarrow> 'a list option"
  next_free :: nat

definition heap_alloc :: "'a list \<Rightarrow> 'a heap \<Rightarrow> nat \<times> 'a heap" where
  "heap_alloc xs h =
     (next_free h, h\<lparr>cells := (cells h)(next_free h \<mapsto> xs), next_free := Suc (next_free h)\<rparr>)"

text \<open>
  \<^verbatim>\<open>build_ranking\<close> on the heap: it reads the list behind its argument, and \<^verbatim>\<open>sorted\<close>
  allocates the list it returns; nothing is written anywhere else. An address that holds
  no list has no counterpart in the program (a Python name always refers to an object),
  so the call yields \<open>None\<close> there.
\<close>

definition build_ranking_heap ::
  "nat \<Rightarrow> pyfloat candidate heap \<Rightarrow> (nat \<times> pyfloat candidate heap) option" where
  "build_ranking_heap ref h =
     (case cells h ref of
        None \<Rightarrow> None
      | Some candidates \<Rightarrow> Some (heap_alloc (build_ranking candidates) h))"

definition heap_wf :: "'a heap \<Rightarrow> bool" where
  "heap_wf h = (cells h (next_free h) = None)"

section \<open>Properties of the ranker\<close>

lemma bsearch_spec:
  "sorted (map key pre)
    \<Longrightarrow> \<forall>y\<in>set pre. lt x y = (key x < key y)
    \<Longrightarrow> l \<le> r \<Longrightarrow> r \<le> length pre
    \<Longrightarrow> \<forall>i<l. key (pre ! i) \<le> key x
    \<Longrightarrow> \<forall>i. r \<le> i \<and> i < length pre \<longrightarrow> key x < key (pre ! i)
    \<Longrightarrow> bsearch lt x pre l r \<le> length pre
        \<and> (\<forall>i<bsearch lt x pre l r. key (pre ! i) \<le> key x)
        \<and> (\<forall>i. bsearch lt x pre l r \<le> i \<and> i < length pre \<longrightarrow> key x < key (pre ! i))"
proof (induction lt x pre l r rule: bsearch.induct)
  case (1 lt pivot pre l r)
  show ?case
  proof (cases "l < r")
    case False
    then have "bsearch lt pivot pre l r = l" by (subst bsearch.simps) simp
    moreover from False "1.prems"(3) have "l = r" by simp
    ultimately show ?thesis using "1.prems"(4,5,6) by simp
  next
    case True
    define p where "p = l + (r - l) div 2"
    from True have p: "l \<le> p" "p < r" by (simp_all add: p_def) 
    with "1.prems" have pin: "p < length pre" by simp
    then have mem: "pre ! p \<in> set pre" by simp
    have unf: "bsearch lt pivot pre l r
               = (if lt pivot (pre ! p) then bsearch lt pivot pre l p else bsearch lt pivot pre (Suc p) r)"
      using True by (subst bsearch.simps) (simp add: p_def Let_def)
    show ?thesis
    proof (cases "lt pivot (pre ! p)")
      case lt: True
      then have kp: "key pivot < key (pre ! p)" using "1.prems"(2) mem by simp
      have up: "\<forall>i. p \<le> i \<and> i < length pre \<longrightarrow> key pivot < key (pre ! i)"
      proof (intro allI impI)
        fix i assume i: "p \<le> i \<and> i < length pre"
        with "1.prems"(1) have "key (pre ! p) \<le> key (pre ! i)"
          by (simp add: sorted_iff_nth_mono)
        with kp show "key pivot < key (pre ! i)" by simp
      qed
      from p "1.prems" have "p \<le> length pre" by simp
      from "1.IH"(1) [OF True p_def lt "1.prems"(1,2) p(1) this "1.prems"(5) up] unf lt
      show ?thesis by simp
    next
      case ge: False
      then have kp: "key (pre ! p) \<le> key pivot" using "1.prems"(2) mem by simp
      have low: "\<forall>i<Suc p. key (pre ! i) \<le> key pivot"
      proof (intro allI impI)
        fix i assume i: "i < Suc p"
        with pin "1.prems"(1) have "key (pre ! i) \<le> key (pre ! p)"
          by (simp add: sorted_iff_nth_mono)
        with kp show "key (pre ! i) \<le> key pivot" by simp
      qed
      from p have "Suc p \<le> r" by simp
      from "1.IH"(2) [OF True p_def ge "1.prems"(1,2) this "1.prems"(4) low "1.prems"(6)] unf ge
      show ?thesis by simp
    qed
  qed
qed

lemma binsert_split:
  assumes "sorted (map key pre)"
    and "\<forall>y\<in>set pre. lt x y = (key x < key y)"
  shows "\<exists>m\<le>length pre. binsert lt x pre = take m pre @ x # drop m pre
           \<and> (\<forall>y\<in>set (take m pre). key y \<le> key x)
           \<and> (\<forall>y\<in>set (drop m pre). key x < key y)"
proof -
  define m where "m = bsearch lt x pre 0 (length pre)"
  have "bsearch lt x pre 0 (length pre) \<le> length pre
        \<and> (\<forall>i<bsearch lt x pre 0 (length pre). key (pre ! i) \<le> key x)
        \<and> (\<forall>i. bsearch lt x pre 0 (length pre) \<le> i \<and> i < length pre \<longrightarrow> key x < key (pre ! i))"
    by (rule bsearch_spec [where key = key and lt = lt and x = x, OF assms(1) assms(2)]) auto
  then have m: "m \<le> length pre" "\<forall>i<m. key (pre ! i) \<le> key x"
    "\<forall>i. m \<le> i \<and> i < length pre \<longrightarrow> key x < key (pre ! i)"
    by (simp_all add: m_def)
  have a: "\<forall>y\<in>set (take m pre). key y \<le> key x"
  proof
    fix y assume "y \<in> set (take m pre)"
    then obtain i where "i < length (take m pre)" "take m pre ! i = y"
      by (auto simp: in_set_conv_nth)
    with m(1,2) show "key y \<le> key x" by auto
  qed
  have b: "\<forall>y\<in>set (drop m pre). key x < key y"
  proof
    fix y assume "y \<in> set (drop m pre)"
    then obtain i where i: "i < length (drop m pre)" "drop m pre ! i = y"
      by (auto simp: in_set_conv_nth)
    then have "m + i < length pre" "pre ! (m + i) = y" using m(1) by auto
    with m(3) show "key x < key y" by (metis le_add1)
  qed
  from m(1) a b show ?thesis
    by (intro exI [of _ m]) (simp add: binsert_def m_def Let_def)
qed

lemma binsert_props:
  assumes "sorted (map key pre)"
    and "\<forall>y\<in>set pre. lt x y = (key x < key y)"
  shows "sorted (map key (binsert lt x pre))"
    and "mset (binsert lt x pre) = add_mset x (mset pre)"
    and "filter (\<lambda>y. key y = k) (binsert lt x pre)
         = filter (\<lambda>y. key y = k) pre @ (if key x = k then [x] else [])"
proof -
  from binsert_split [where key = key and lt = lt and x = x, OF assms] obtain m where m: "m \<le> length pre"
    "binsert lt x pre = take m pre @ x # drop m pre"
    "\<forall>y\<in>set (take m pre). key y \<le> key x" "\<forall>y\<in>set (drop m pre). key x < key y"
    by blast
  have pre: "pre = take m pre @ drop m pre" by simp
  from assms(1) have s: "sorted (map key (take m pre))" "sorted (map key (drop m pre))"
    by (simp_all add: sorted_map sorted_wrt_take sorted_wrt_drop)
  from m(3,4) have "\<forall>a\<in>set (take m pre). \<forall>b\<in>set (drop m pre). key a \<le> key b"
    by (meson le_less_trans less_imp_le)
  with s m(3,4) show "sorted (map key (binsert lt x pre))"
    by (auto simp: m(2) sorted_append less_imp_le)
  have "mset (take m pre @ x # drop m pre) = add_mset x (mset (take m pre @ drop m pre))"
    by (simp only: mset_append mset.simps) simp
  then show "mset (binsert lt x pre) = add_mset x (mset pre)"
    by (simp add: m(2))
  have nok: "key x = k \<Longrightarrow> filter (\<lambda>y. key y = k) (drop m pre) = []"
    using m(4) by (auto simp: filter_empty_conv)
  have "filter (\<lambda>y. key y = k) pre
        = filter (\<lambda>y. key y = k) (take m pre) @ filter (\<lambda>y. key y = k) (drop m pre)"
    by (metis pre filter_append)
  then show "filter (\<lambda>y. key y = k) (binsert lt x pre)
         = filter (\<lambda>y. key y = k) pre @ (if key x = k then [x] else [])"
    using nok by (simp add: m(2))
qed

lemma binarysort_props:
  "sorted (map key run)
   \<Longrightarrow> (\<And>a b. a \<in> set run \<union> set rest \<Longrightarrow> b \<in> set run \<union> set rest \<Longrightarrow> lt a b = (key a < key b))
   \<Longrightarrow> sorted (map key (binarysort lt run rest))
       \<and> mset (binarysort lt run rest) = mset run + mset rest
       \<and> (\<forall>k. filter (\<lambda>y. key y = k) (binarysort lt run rest)
                = filter (\<lambda>y. key y = k) run @ filter (\<lambda>y. key y = k) rest)"
proof (induction rest arbitrary: run)
  case Nil
  then show ?case by (simp add: binarysort_def)
next
  case (Cons x rest)
  have ord: "\<forall>y\<in>set run. lt x y = (key x < key y)"
    using Cons.prems(2) by simp
  note b = binsert_props [where key = key and lt = lt and x = x, OF Cons.prems(1) ord]
  have set_b: "set (binsert lt x run) = insert x (set run)"
    using b(2) by (metis set_mset_mset set_mset_add_mset_insert)
  have "sorted (map key (binarysort lt (binsert lt x run) rest))
       \<and> mset (binarysort lt (binsert lt x run) rest) = mset (binsert lt x run) + mset rest
       \<and> (\<forall>k. filter (\<lambda>y. key y = k) (binarysort lt (binsert lt x run) rest)
                = filter (\<lambda>y. key y = k) (binsert lt x run) @ filter (\<lambda>y. key y = k) rest)"
  proof (rule Cons.IH [OF b(1)])
    fix a b assume "a \<in> set (binsert lt x run) \<union> set rest" "b \<in> set (binsert lt x run) \<union> set rest"
    then show "lt a b = (key a < key b)"
      using Cons.prems(2) [of a b] by (auto simp: set_b)
  qed
  moreover have "binarysort lt run (x # rest) = binarysort lt (binsert lt x run) rest"
    by (simp add: binarysort_def)
  ultimately show ?case
    by (simp add: b(2) b(3))
qed

lemma asc_run_sorted:
  fixes key :: "'a \<Rightarrow> 'k::linorder"
  shows "(\<And>a b. a \<in> insert prev (set xs) \<Longrightarrow> b \<in> insert prev (set xs) \<Longrightarrow> lt a b = (key a < key b))
   \<Longrightarrow> sorted (map key (prev # take (asc_run lt prev xs) xs))"
proof (induction xs arbitrary: prev)
  case Nil
  then show ?case by simp
next
  case (Cons x xs)
  show ?case
  proof (cases "lt x prev")
    case True
    then show ?thesis by simp
  next
    case False
    then have h: "key prev \<le> key x" using Cons.prems [of x prev] by simp
    have IH: "sorted (map key (x # take (asc_run lt x xs) xs))"
      by (rule Cons.IH) (rule Cons.prems, auto)
    have "\<forall>z\<in>set (take (asc_run lt x xs) xs). key prev \<le> key z"
    proof
      fix z assume "z \<in> set (take (asc_run lt x xs) xs)"
      with IH have "key x \<le> key z" by simp
      with h show "key prev \<le> key z" by (rule order_trans)
    qed
    with h IH False show ?thesis by simp
  qed
qed

lemma desc_run_sorted:
  fixes key :: "'a \<Rightarrow> 'k::linorder"
  shows "(\<And>a b. a \<in> insert prev (set xs) \<Longrightarrow> b \<in> insert prev (set xs) \<Longrightarrow> lt a b = (key a < key b))
   \<Longrightarrow> sorted_wrt (\<lambda>a b. key b < key a) (prev # take (desc_run lt prev xs) xs)"
proof (induction xs arbitrary: prev)
  case Nil
  then show ?case by simp
next
  case (Cons x xs)
  show ?case
  proof (cases "lt x prev")
    case False
    then show ?thesis by simp
  next
    case True
    then have lt: "key x < key prev" using Cons.prems [of x prev] by simp
    have IH: "sorted_wrt (\<lambda>a b. key b < key a) (x # take (desc_run lt x xs) xs)"
      by (rule Cons.IH) (rule Cons.prems, auto)
    have "\<forall>z\<in>set (take (desc_run lt x xs) xs). key z < key prev"
    proof
      fix z assume "z \<in> set (take (desc_run lt x xs) xs)"
      with IH have "key z < key x" by simp
      then show "key z < key prev" using lt by (rule less_trans)
    qed
    with IH lt True show ?thesis by simp
  qed
qed

lemma strict_desc_rev:
  fixes key :: "'a \<Rightarrow> 'k::linorder"
  shows "sorted_wrt (\<lambda>a b. key b < key a) ys
   \<Longrightarrow> sorted (map key (rev ys))
       \<and> (\<forall>k. filter (\<lambda>y. key y = k) (rev ys) = filter (\<lambda>y. key y = k) ys)"
proof (induction ys)
  case Nil
  then show ?case by simp
next
  case (Cons y ys)
  then have IH: "sorted (map key (rev ys))"
    "\<And>k. filter (\<lambda>y. key y = k) (rev ys) = filter (\<lambda>y. key y = k) ys"
    and lt: "\<forall>z\<in>set ys. key z < key y"
    by simp_all
  from lt have none: "filter (\<lambda>z. key z = key y) ys = []"
    by (auto simp: filter_empty_conv)
  from IH(1) lt have "sorted (map key (rev ys) @ [key y])"
    by (auto simp: sorted_append less_imp_le)
  moreover have "\<forall>k. filter (\<lambda>z. key z = k) (rev (y # ys)) = filter (\<lambda>z. key z = k) (y # ys)"
    using IH(2) none by auto
  ultimately show ?case by simp
qed

lemma count_run_props:
  fixes key :: "'a \<Rightarrow> 'k::linorder"
  assumes "\<And>a b. a \<in> set xs \<Longrightarrow> b \<in> set xs \<Longrightarrow> lt a b = (key a < key b)"
    and "count_run lt xs = (n, d)"
  shows "sorted (map key (if d then rev (take n xs) else take n xs))
         \<and> (\<forall>k. filter (\<lambda>y. key y = k) (if d then rev (take n xs) else take n xs)
                  = filter (\<lambda>y. key y = k) (take n xs))"
proof (cases xs)
  case Nil
  with assms(2) show ?thesis by simp
next
  case (Cons x xs1)
  show ?thesis
  proof (cases xs1)
    case Nil
    with Cons assms(2) show ?thesis by auto
  next
    case (Cons y ys)
    with \<open>xs = x # xs1\<close> have xs: "xs = x # y # ys" by simp
    have ord: "\<And>a b. a \<in> insert y (set ys) \<Longrightarrow> b \<in> insert y (set ys) \<Longrightarrow> lt a b = (key a < key b)"
      using assms(1) by (simp add: xs)
    show ?thesis
    proof (cases "lt y x")
      case True
      with assms(2) xs have n: "n = 2 + desc_run lt y ys" "d" by simp_all
      from True have yx: "key y < key x" using assms(1) [of y x] by (simp add: xs)
      have s: "sorted_wrt (\<lambda>a b. key b < key a) (y # take (desc_run lt y ys) ys)"
        by (rule desc_run_sorted) (rule ord)
      have "\<forall>z\<in>set (take (desc_run lt y ys) ys). key z < key x"
      proof
        fix z assume "z \<in> set (take (desc_run lt y ys) ys)"
        with s have "key z < key y" by simp
        then show "key z < key x" using yx by (rule less_trans)
      qed
      with s yx have "sorted_wrt (\<lambda>a b. key b < key a) (x # y # take (desc_run lt y ys) ys)"
        by simp
      then have "sorted_wrt (\<lambda>a b. key b < key a) (take n xs)"
        by (simp add: n xs)
      from strict_desc_rev [OF this] n(2) show ?thesis by simp
    next
      case False
      with assms(2) xs have n: "n = 2 + asc_run lt y ys" "\<not> d" by simp_all
      from False have xy: "key x \<le> key y" using assms(1) [of y x] by (simp add: xs)
      have s: "sorted (map key (y # take (asc_run lt y ys) ys))"
        by (rule asc_run_sorted) (rule ord)
      have "\<forall>z\<in>set (take (asc_run lt y ys) ys). key x \<le> key z"
      proof
        fix z assume "z \<in> set (take (asc_run lt y ys) ys)"
        with s have "key y \<le> key z" by simp
        with xy show "key x \<le> key z" by (rule order_trans)
      qed
      with s xy have "sorted (map key (take n xs))"
        by (simp add: n xs)
      with n(2) show ?thesis by simp
    qed
  qed
qed

lemma list_sort_props:
  fixes key :: "'a \<Rightarrow> 'k::linorder"
  assumes "\<And>a b. a \<in> set xs \<Longrightarrow> b \<in> set xs \<Longrightarrow> lt a b = (key a < key b)"
  shows "sorted (map key (list_sort lt xs))
         \<and> mset (list_sort lt xs) = mset xs
         \<and> (\<forall>k. filter (\<lambda>y. key y = k) (list_sort lt xs) = filter (\<lambda>y. key y = k) xs)"
proof -
  obtain n d where nd: "count_run lt xs = (n, d)" by (cases "count_run lt xs")
  define run where "run = (if d then rev (take n xs) else take n xs)"
  from count_run_props [OF assms nd] have run: "sorted (map key run)"
    "\<And>k. filter (\<lambda>y. key y = k) run = filter (\<lambda>y. key y = k) (take n xs)"
    by (simp_all add: run_def)
  have sets: "set run \<union> set (drop n xs) \<subseteq> set xs"
    by (auto simp: run_def dest: in_set_takeD in_set_dropD)
  have ms: "mset run = mset (take n xs)" by (simp add: run_def)
  have b: "sorted (map key (binarysort lt run (drop n xs)))
       \<and> mset (binarysort lt run (drop n xs)) = mset run + mset (drop n xs)
       \<and> (\<forall>k. filter (\<lambda>y. key y = k) (binarysort lt run (drop n xs))
                = filter (\<lambda>y. key y = k) run @ filter (\<lambda>y. key y = k) (drop n xs))"
  proof (rule binarysort_props [OF run(1)])
    fix a b assume "a \<in> set run \<union> set (drop n xs)" "b \<in> set run \<union> set (drop n xs)"
    with sets show "lt a b = (key a < key b)" by (intro assms) auto
  qed
  have ls: "list_sort lt xs = binarysort lt run (drop n xs)"
    by (simp add: list_sort_def nd run_def)
  have "mset (take n xs) + mset (drop n xs) = mset xs"
    by (metis mset_append append_take_drop_id)
  moreover have "\<And>k. filter (\<lambda>y. key y = k) (take n xs) @ filter (\<lambda>y. key y = k) (drop n xs)
                    = filter (\<lambda>y. key y = k) xs"
    by (metis filter_append append_take_drop_id)
  ultimately show ?thesis
    using b by (simp add: ls ms run(2))
qed

lemma py_sorted_reverse_props:
  fixes key :: "'a \<Rightarrow> 'k::linorder"
  assumes "\<And>a b. a \<in> set xs \<Longrightarrow> b \<in> set xs \<Longrightarrow> lt a b = (key a < key b)"
  shows "sorted_wrt (\<lambda>a b. key b \<le> key a) (py_sorted lt True xs)
         \<and> mset (py_sorted lt True xs) = mset xs
         \<and> (\<forall>k. filter (\<lambda>y. key y = k) (py_sorted lt True xs) = filter (\<lambda>y. key y = k) xs)"
proof -
  have ord: "\<And>a b. a \<in> set (rev xs) \<Longrightarrow> b \<in> set (rev xs) \<Longrightarrow> lt a b = (key a < key b)"
    using assms by simp
  have p: "sorted (map key (list_sort lt (rev xs)))
         \<and> mset (list_sort lt (rev xs)) = mset (rev xs)
         \<and> (\<forall>k. filter (\<lambda>y. key y = k) (list_sort lt (rev xs)) = filter (\<lambda>y. key y = k) (rev xs))"
    by (rule list_sort_props) (rule ord)
  from p have "sorted_wrt (\<lambda>a b. key a \<le> key b) (list_sort lt (rev xs))"
    by (simp add: sorted_map)
  then have 1: "sorted_wrt (\<lambda>a b. key b \<le> key a) (rev (list_sort lt (rev xs)))"
    by (simp add: sorted_wrt_rev)
  have 3: "\<And>k. filter (\<lambda>y. key y = k) (rev (list_sort lt (rev xs))) = filter (\<lambda>y. key y = k) xs"
  proof -
    fix k
    have "filter (\<lambda>y. key y = k) (rev (list_sort lt (rev xs)))
          = rev (filter (\<lambda>y. key y = k) (list_sort lt (rev xs)))"
      by (simp add: rev_filter)
    also have "\<dots> = rev (filter (\<lambda>y. key y = k) (rev xs))" using p by simp
    also have "\<dots> = filter (\<lambda>y. key y = k) xs" by (simp add: rev_filter)
    finally show "filter (\<lambda>y. key y = k) (rev (list_sort lt (rev xs))) = filter (\<lambda>y. key y = k) xs" .
  qed
  from p 1 3 show ?thesis by (simp add: py_sorted_def)
qed

lemma pf_lt_rank: "x \<noteq> NaN \<Longrightarrow> y \<noteq> NaN \<Longrightarrow> pf_lt x y = (pf_rank x < pf_rank y)"
  by (cases x; cases y) (auto simp: pf_lt_def pf_rank_def)

lemma pf_rank_inj: "x \<noteq> NaN \<Longrightarrow> y \<noteq> NaN \<Longrightarrow> (pf_rank x = pf_rank y) = (x = y)"
  by (cases x; cases y) (auto simp: pf_rank_def)

lemma pf_le_rank: "x \<noteq> NaN \<Longrightarrow> y \<noteq> NaN \<Longrightarrow> pf_le x y = (pf_rank x \<le> pf_rank y)"
  by (auto simp: pf_le_def pf_lt_rank pf_rank_inj [symmetric] le_less)

text \<open>
  Claim C2, as the code has it. For every list of candidates none of whose final score
  is NaN, \<^verbatim>\<open>build_ranking\<close> returns a permutation of its input (the same records, each
  as often as in the input), in descending order of \<open>final_score\<close>, and for every score
  the records that have it appear in the order they had in the input: the sort is
  stable and uses no second key. The function is total: it has no error result for any
  list of records.
\<close>

theorem build_ranking_without_nan:
  assumes "\<forall>c\<in>set cs. final_score c \<noteq> NaN"
  shows "mset (build_ranking cs) = mset cs
   \<and> sorted_wrt (\<lambda>a b. pf_le (final_score b) (final_score a)) (build_ranking cs)
   \<and> (\<forall>k. filter (\<lambda>c. final_score c = k) (build_ranking cs)
            = filter (\<lambda>c. final_score c = k) cs)"
proof -
  let ?key = "\<lambda>c. pf_rank (final_score c)"
  let ?lt = "\<lambda>a b. pf_lt (final_score a) (final_score b)"
  have ord: "\<And>a b. a \<in> set cs \<Longrightarrow> b \<in> set cs \<Longrightarrow> ?lt a b = (?key a < ?key b)"
    using assms by (simp add: pf_lt_rank)
  have p: "sorted_wrt (\<lambda>a b. ?key b \<le> ?key a) (py_sorted ?lt True cs)
         \<and> mset (py_sorted ?lt True cs) = mset cs
         \<and> (\<forall>k. filter (\<lambda>y. ?key y = k) (py_sorted ?lt True cs) = filter (\<lambda>y. ?key y = k) cs)"
    by (rule py_sorted_reverse_props) (rule ord)
  then have ms: "mset (build_ranking cs) = mset cs"
    by (simp add: build_ranking_def)
  then have set_eq: "set (build_ranking cs) = set cs"
    by (rule mset_eq_setD)
  with assms have nn: "\<forall>c\<in>set (build_ranking cs). final_score c \<noteq> NaN" by simp
  from p have "sorted_wrt (\<lambda>a b. ?key b \<le> ?key a) (build_ranking cs)"
    by (simp add: build_ranking_def)
  then have srt: "sorted_wrt (\<lambda>a b. pf_le (final_score b) (final_score a)) (build_ranking cs)"
    by (rule sorted_wrt_mono_rel [rotated]) (use nn in \<open>simp add: pf_le_rank\<close>)
  have stab: "filter (\<lambda>c. final_score c = k) (build_ranking cs) = filter (\<lambda>c. final_score c = k) cs" for k
  proof (cases "k = NaN")
    case True
    with assms nn show ?thesis by (simp add: filter_empty_conv)
  next
    case False
    have "filter (\<lambda>c. final_score c = k) (build_ranking cs)
          = filter (\<lambda>c. ?key c = pf_rank k) (build_ranking cs)"
      by (rule filter_cong) (use nn False in \<open>simp_all add: pf_rank_inj\<close>)
    also have "\<dots> = filter (\<lambda>c. ?key c = pf_rank k) cs"
    proof -
      from p have "filter (\<lambda>y. ?key y = pf_rank k) (py_sorted ?lt True cs)
                   = filter (\<lambda>y. ?key y = pf_rank k) cs"
        by blast
      then show ?thesis by (simp only: build_ranking_def)
    qed
    also have "\<dots> = filter (\<lambda>c. final_score c = k) cs"
      by (rule filter_cong) (use assms False in \<open>simp_all add: pf_rank_inj\<close>)
    finally show ?thesis .
  qed
  from ms srt stab show ?thesis by simp
qed

theorem build_ranking_without_nan_witness:
  "build_ranking [cand ''1'' (Finite 8), cand ''2'' (Finite 9), cand ''3'' (Finite 8)]
     = [cand ''2'' (Finite 9), cand ''1'' (Finite 8), cand ''3'' (Finite 8)]"
proof -
  have h: "\<forall>c\<in>set [cand ''1'' (Finite 8), cand ''2'' (Finite 9), cand ''3'' (Finite 8)].
             final_score c \<noteq> NaN"
    by (simp add: cand_def)
  have e: "build_ranking [cand ''1'' (Finite 8), cand ''2'' (Finite 9), cand ''3'' (Finite 8)]
     = [cand ''2'' (Finite 9), cand ''1'' (Finite 8), cand ''3'' (Finite 8)]"
    by code_simp
  from build_ranking_without_nan [OF h] e show ?thesis by simp
qed

text \<open>
  The claim as stated, for every list of well-typed records, fails: NaN is a float, the
  fallback path of the extractor reads it from \<^verbatim>\<open>nan\<close>, and the ranking of three records
  with the final scores 9.0, NaN and 9.5 is the list itself, in which 9.0 stands before
  9.5.
\<close>

theorem build_ranking_nan_counterexample:
  "build_ranking [cand ''1'' (Finite 9), cand ''2'' NaN, cand ''3'' (Finite (19 / 2))]
     = [cand ''1'' (Finite 9), cand ''2'' NaN, cand ''3'' (Finite (19 / 2))]
   \<and> pf_lt (Finite 9) (Finite (19 / 2))
   \<and> \<not> sorted_wrt (\<lambda>a b. pf_le (final_score b) (final_score a))
         (build_ranking [cand ''1'' (Finite 9), cand ''2'' NaN, cand ''3'' (Finite (19 / 2))])"
  by code_simp

section \<open>Properties of the heap model of the ranker\<close>

text \<open>
  Claim C10. \<^verbatim>\<open>build_ranking\<close> does not change the list it is given: on a heap where
  the argument refers to a list, the call returns a reference to a list allocated by
  the call, different from the argument; after the call the argument still refers to
  the same records in the same order, the new list holds the ranking, and no other
  list has changed.
\<close>

theorem build_ranking_heap_frame:
  assumes "cells h ref = Some cs" and "heap_wf h"
  shows "\<exists>r h'. build_ranking_heap ref h = Some (r, h')
           \<and> r \<noteq> ref \<and> cells h r = None
           \<and> cells h' ref = Some cs
           \<and> cells h' r = Some (build_ranking cs)
           \<and> (\<forall>a. a \<noteq> r \<longrightarrow> cells h' a = cells h a)"
proof -
  from assms have fresh: "next_free h \<noteq> ref" "cells h (next_free h) = None"
    by (auto simp: heap_wf_def)
  with assms(1) show ?thesis
    by (simp add: build_ranking_heap_def heap_alloc_def)
qed

theorem build_ranking_heap_frame_witness:
  "\<exists>r h'. build_ranking_heap 0
       \<lparr>cells = (\<lambda>a. if a = 0 then Some [cand ''1'' (Finite 1), cand ''2'' (Finite 2)] else None),
        next_free = 1\<rparr> = Some (r, h')
     \<and> r \<noteq> 0
     \<and> cells h' 0 = Some [cand ''1'' (Finite 1), cand ''2'' (Finite 2)]"
  using build_ranking_heap_frame [of
      "\<lparr>cells = (\<lambda>a. if a = 0 then Some [cand ''1'' (Finite 1), cand ''2'' (Finite 2)] else None),
        next_free = 1\<rparr>" 0]
  by (simp add: heap_wf_def) blast

section \<open>Properties of the extractor and of the report builder\<close>

lemma parse_unreadable:
  "parse_candidates_data None = ((''Unknown'', ''Unknown'', []), [ErrorProcessingFile])"
  by (simp add: parse_candidates_data_def)

lemma parse_empty: "parse_candidates_data (Some []) = ((''Unknown'', ''Unknown'', []), [])"
  by code_simp

lemma display_ranking_empty:
  "display_ranking can_write option_number option_title [] output_format output_file = [NoCandidates]"
  by (simp add: display_ranking_def)

text \<open>
  Claim C7. For an input file that cannot be read and for an empty input file, the
  extraction returns the option id \<^verbatim>\<open>"Unknown"\<close>, the option title \<^verbatim>\<open>"Unknown"\<close> and
  an empty list of records; the report builder, given an empty list of records, emits
  the no-candidates notice and nothing else: no file is written, whatever the format
  and the file name.
\<close>

theorem unreadable_or_empty_input:
  "fst (parse_candidates_data None) = (''Unknown'', ''Unknown'', [])
   \<and> fst (parse_candidates_data (Some [])) = (''Unknown'', ''Unknown'', [])
   \<and> display_ranking can_write option_number option_title [] output_format output_file
       = [NoCandidates]"
  using parse_unreadable parse_empty
    display_ranking_empty [of can_write option_number option_title output_format output_file]
  by simp

text \<open>
  Claim C4 (the code departs from it). The normalization replaces every newline by a
  blank, but it replaces pairs of blanks in one pass from left to right: a run of three
  blanks becomes a run of two, so two adjacent blanks are left in the text handed to the
  splitting.
\<close>

theorem clean_content_three_blanks: "clean_content ''a   b'' = ''a  b''"
  by code_simp

lemma suffix_of_long_tail: "suffix a (w @ v) \<Longrightarrow> length a \<le> length v \<Longrightarrow> suffix a v"
  by (auto simp: suffix_append dest: suffix_length_le suffix_order.antisym)

lemma short_list_cases:
  assumes "length (y :: 'a list) < 5"
  obtains "y = []" | a where "y = [a]" | a b where "y = [a, b]" | a b c where "y = [a, b, c]"
    | a b c d where "y = [a, b, c, d]"
proof (cases y)
  case Nil then show ?thesis using that by simp
next
  case (Cons a y1)
  show ?thesis
  proof (cases y1)
    case Nil with Cons show ?thesis using that by simp
  next
    case (Cons b y2)
    note c2 = this
    show ?thesis
    proof (cases y2)
      case Nil with c2 \<open>y = a # y1\<close> show ?thesis using that by simp
    next
      case (Cons c y3)
      note c3 = this
      show ?thesis
      proof (cases y3)
        case Nil with c3 c2 \<open>y = a # y1\<close> show ?thesis using that by simp
      next
        case (Cons d y4)
        with c3 c2 \<open>y = a # y1\<close> assms have "y4 = []" by simp
        with Cons c3 c2 \<open>y = a # y1\<close> show ?thesis using that by simp
      qed
    qed
  qed
qed

lemma xlsx_tail_empty:
  assumes "suffix ''.xlsx'' (X @ ''.xlsx'' @ y)" "length y < 5"
  shows "y = []"
proof -
  from assms(1) obtain z where z: "X @ ''.xlsx'' @ y = z @ ''.xlsx''"
    by (auto simp: suffix_def)
  from assms(2) show ?thesis
  proof (cases y rule: short_list_cases)
    case 1 then show ?thesis .
  next
    case (2 a)
    with z have "(X @ ''.'') @ (''xlsx'' @ [a]) = z @ ''.xlsx''" by simp
    then have "''xlsx'' @ [a] = ''.xlsx''" by (subst (asm) append_eq_append_conv) simp_all
    then show ?thesis by simp
  next
    case (3 a b)
    with z have "(X @ ''.x'') @ (''lsx'' @ [a, b]) = z @ ''.xlsx''" by simp
    then have "''lsx'' @ [a, b] = ''.xlsx''" by (subst (asm) append_eq_append_conv) simp_all
    then show ?thesis by simp
  next
    case (4 a b c)
    with z have "(X @ ''.xl'') @ (''sx'' @ [a, b, c]) = z @ ''.xlsx''" by simp
    then have "''sx'' @ [a, b, c] = ''.xlsx''" by (subst (asm) append_eq_append_conv) simp_all
    then show ?thesis by simp
  next
    case (5 a b c d)
    with z have "(X @ ''.xls'') @ (''x'' @ [a, b, c, d]) = z @ ''.xlsx''" by simp
    then have "''x'' @ [a, b, c, d] = ''.xlsx''" by (subst (asm) append_eq_append_conv) simp_all
    then show ?thesis by simp
  qed
qed

lemma py_lower_append: "py_lower (a @ b) = py_lower a @ py_lower b"
  by (simp add: py_lower_def)

lemma py_lower_xlsx: "py_lower ''.xlsx'' = ''.xlsx''"
  by code_simp

lemma py_replace_empty_old: "py_replace [] new s = s"
  by (simp add: py_replace.simps)

lemma py_replace_None: "py_find old s = None \<Longrightarrow> py_replace old new s = s"
  by (simp add: py_replace.simps)

lemma py_replace_Some:
  "old \<noteq> [] \<Longrightarrow> py_find old s = Some i
   \<Longrightarrow> py_replace old new s = take i s @ new @ py_replace old new (drop (i + length old) s)"
  by (subst py_replace.simps) simp

lemma replace_keeps_xlsx:
  "(suffix ''.xlsx'' (py_lower s) \<longrightarrow> suffix ''.xlsx'' s)
   \<Longrightarrow> suffix ''.xlsx'' (py_lower (py_replace old ''.xlsx'' s))
   \<Longrightarrow> suffix ''.xlsx'' (py_replace old ''.xlsx'' s)"
proof (induction old "''.xlsx''" s rule: py_replace.induct)
  case (1 old s)
  show ?case
  proof (cases "old = []")
    case True
    with "1.prems" show ?thesis by (simp add: py_replace_empty_old)
  next
    case False
    show ?thesis
    proof (cases "py_find old s")
      case None
      with "1.prems" show ?thesis by (simp add: py_replace_None)
    next
      case (Some i)
      define v where "v = drop (i + length old) s"
      define r' where "r' = py_replace old ''.xlsx'' v"
      have r: "py_replace old ''.xlsx'' s = take i s @ ''.xlsx'' @ r'"
        using py_replace_Some [OF False Some] by (simp add: v_def r'_def)
      have s: "s = take (i + length old) s @ v"
        by (simp add: v_def)
      have Pv: "suffix ''.xlsx'' (py_lower v) \<longrightarrow> suffix ''.xlsx'' v"
      proof
        assume a: "suffix ''.xlsx'' (py_lower v)"
        then have len: "length ''.xlsx'' \<le> length v"
          using suffix_length_le [OF a] by (simp add: py_lower_def)
        from a have "suffix ''.xlsx'' (py_lower (take (i + length old) s) @ py_lower v)"
          by (simp add: suffix_append)
        then have "suffix ''.xlsx'' (py_lower s)"
          by (metis s py_lower_append)
        with "1.prems"(1) have "suffix ''.xlsx'' s" by simp
        then have "suffix ''.xlsx'' (take (i + length old) s @ v)" using s by simp
        then show "suffix ''.xlsx'' v" using len by (rule suffix_of_long_tail)
      qed
      have IH: "suffix ''.xlsx'' (py_lower r') \<Longrightarrow> suffix ''.xlsx'' r'"
        using "1.hyps" [OF False Some] Pv by (simp add: v_def r'_def)
      from "1.prems"(2) have "suffix ''.xlsx'' (py_lower (take i s @ ''.xlsx'' @ r'))"
        by (simp only: r)
      then have low: "suffix ''.xlsx'' (py_lower (take i s) @ ''.xlsx'' @ py_lower r')"
        by (simp only: py_lower_append py_lower_xlsx)
      show ?thesis
      proof (cases "length r' < 5")
        case True
        then have "length (py_lower r') < 5" by (simp add: py_lower_def)
        with low have "py_lower r' = []" by (rule xlsx_tail_empty)
        then have "r' = []" by (simp add: py_lower_def)
        with r show ?thesis by (simp add: suffix_def)
      next
        case False
        then have "length ''.xlsx'' \<le> length (py_lower r')" by (simp add: py_lower_def)
        moreover from low have "suffix ''.xlsx'' ((py_lower (take i s) @ ''.xlsx'') @ py_lower r')"
          by simp
        ultimately have "suffix ''.xlsx'' (py_lower r')" by (rule suffix_of_long_tail [rotated])
        then have "suffix ''.xlsx'' r'" by (rule IH)
        then have "suffix ''.xlsx'' ((take i s @ ''.xlsx'') @ r')" by (rule suffix_appendI)
        with r show ?thesis by simp
      qed
    qed
  qed
qed

lemma output_name_xlsx:
  assumes "\<not> py_endswith (py_lower file) ''.xlsx''"
  shows "py_endswith (output_name ''.xlsx'' a b file) ''.xlsx''"
proof -
  define r1 where "r1 = py_replace a ''.xlsx'' file"
  define renamed where "renamed = py_replace b ''.xlsx'' r1"
  from assms have P0: "suffix ''.xlsx'' (py_lower file) \<longrightarrow> suffix ''.xlsx'' file"
    by (simp add: py_endswith_def)
  have P1: "suffix ''.xlsx'' (py_lower r1) \<longrightarrow> suffix ''.xlsx'' r1"
    unfolding r1_def using replace_keeps_xlsx [OF P0] by blast
  have P2: "suffix ''.xlsx'' (py_lower renamed) \<longrightarrow> suffix ''.xlsx'' renamed"
    unfolding renamed_def using replace_keeps_xlsx [OF P1] by blast
  show ?thesis
  proof (cases "py_endswith (py_lower renamed) ''.xlsx''")
    case True
    with P2 assms show ?thesis
      by (simp add: output_name_def py_endswith_def renamed_def r1_def)
  next
    case False
    with assms show ?thesis
      by (simp add: output_name_def py_endswith_def renamed_def r1_def suffix_def)
  qed
qed

lemma py_find_past_dotless:
  assumes "CHR ''.'' \<notin> set base"
  shows "py_find (CHR ''.'' # t) (base @ r) = map_option (\<lambda>i. length base + i) (py_find (CHR ''.'' # t) r)"
  using assms
proof (induction base)
  case Nil
  then show ?case by (simp add: option.map_ident)
next
  case (Cons c cs)
  then have "c \<noteq> CHR ''.''" "CHR ''.'' \<notin> set cs" by auto
  with Cons.IH show ?case by (simp add: option.map_comp comp_def)
qed

lemma py_replace_dotless:
  assumes "CHR ''.'' \<notin> set base"
  shows "py_replace ''.txt'' ''.xlsx'' (base @ ''.csv'') = base @ ''.csv''"
    and "py_replace ''.csv'' ''.xlsx'' (base @ ''.csv'') = base @ ''.xlsx''"
    and "py_replace ''.txt'' ''.xlsx'' (base @ ''.txt'') = base @ ''.xlsx''"
    and "py_replace ''.csv'' ''.xlsx'' (base @ ''.xlsx'') = base @ ''.xlsx''"
    and "py_replace ''.txt'' ''.xlsx'' base = base"
    and "py_replace ''.csv'' ''.xlsx'' base = base"
proof -
  have e: "py_replace ''.csv'' ''.xlsx'' [] = []" "py_replace ''.txt'' ''.xlsx'' [] = []"
    by (simp_all add: py_replace_None)
  have f1: "py_find ''.txt'' (base @ ''.csv'') = None"
    using py_find_past_dotless [OF assms, of "''txt''" "''.csv''"] by simp
  have f2: "py_find ''.csv'' (base @ ''.csv'') = Some (length base)"
    using py_find_past_dotless [OF assms, of "''csv''" "''.csv''"] by simp
  have f3: "py_find ''.txt'' (base @ ''.txt'') = Some (length base)"
    using py_find_past_dotless [OF assms, of "''txt''" "''.txt''"] by simp
  have f4: "py_find ''.csv'' (base @ ''.xlsx'') = None"
    using py_find_past_dotless [OF assms, of "''csv''" "''.xlsx''"] by simp
  have f5: "py_find ''.txt'' base = None" "py_find ''.csv'' base = None"
    using py_find_past_dotless [OF assms, of "''txt''" "[]"]
      py_find_past_dotless [OF assms, of "''csv''" "[]"] by simp_all
  show "py_replace ''.txt'' ''.xlsx'' (base @ ''.csv'') = base @ ''.csv''"
    using f1 by (rule py_replace_None)
  show "py_replace ''.csv'' ''.xlsx'' (base @ ''.csv'') = base @ ''.xlsx''"
    using py_replace_Some [OF _ f2, of "''.xlsx''"] e by simp
  show "py_replace ''.txt'' ''.xlsx'' (base @ ''.txt'') = base @ ''.xlsx''"
    using py_replace_Some [OF _ f3, of "''.xlsx''"] e by simp
  show "py_replace ''.csv'' ''.xlsx'' (base @ ''.xlsx'') = base @ ''.xlsx''"
    using f4 by (rule py_replace_None)
  show "py_replace ''.txt'' ''.xlsx'' base = base" "py_replace ''.csv'' ''.xlsx'' base = base"
    using f5 by (simp_all add: py_replace_None)
qed

lemma suffix_lower_xlsx: "suffix ''.xlsx'' s \<Longrightarrow> suffix ''.xlsx'' (py_lower s)"
  by (auto simp: suffix_def py_lower_append py_lower_xlsx)

lemma output_name_xlsx_eq:
  assumes "\<not> py_endswith (py_lower file) ''.xlsx''"
  shows "output_name ''.xlsx'' ''.txt'' ''.csv'' file
         = (let renamed = py_replace ''.csv'' ''.xlsx'' (py_replace ''.txt'' ''.xlsx'' file)
            in if py_endswith renamed ''.xlsx'' then renamed else renamed @ ''.xlsx'')"
proof -
  define renamed where "renamed = py_replace ''.csv'' ''.xlsx'' (py_replace ''.txt'' ''.xlsx'' file)"
  from assms have P0: "suffix ''.xlsx'' (py_lower file) \<longrightarrow> suffix ''.xlsx'' file"
    by (simp add: py_endswith_def)
  have P1: "suffix ''.xlsx'' (py_lower (py_replace ''.txt'' ''.xlsx'' file))
            \<longrightarrow> suffix ''.xlsx'' (py_replace ''.txt'' ''.xlsx'' file)"
    using replace_keeps_xlsx [OF P0] by blast
  have "suffix ''.xlsx'' (py_lower renamed) \<longrightarrow> suffix ''.xlsx'' renamed"
    unfolding renamed_def using replace_keeps_xlsx [OF P1] by blast
  then have "py_endswith (py_lower renamed) ''.xlsx'' = py_endswith renamed ''.xlsx''"
    by (auto simp: py_endswith_def dest: suffix_lower_xlsx)
  with assms show ?thesis
    by (simp add: output_name_def Let_def renamed_def)
qed

text \<open>
  Claim C8. When the spreadsheet format is selected (the format, in any case of letters,
  is \<^verbatim>\<open>xlsx\<close>), there are candidates, and the requested file name is not empty and does
  not end in \<^verbatim>\<open>.xlsx\<close> (by the program's own test, which ignores the case of letters),
  the report is saved under the requested name with every \<^verbatim>\<open>.txt\<close> and then every
  \<^verbatim>\<open>.csv\<close> in it rewritten to \<^verbatim>\<open>.xlsx\<close>, and with \<^verbatim>\<open>.xlsx\<close> appended when the result does
  not end in it; that name ends in \<^verbatim>\<open>.xlsx\<close>, letter for letter. So a name that is a base
  without a dot followed by \<^verbatim>\<open>.csv\<close> or \<^verbatim>\<open>.txt\<close> becomes the base followed by \<^verbatim>\<open>.xlsx\<close>,
  and a name without a dot gets \<^verbatim>\<open>.xlsx\<close> appended. No error is raised for the name;
  whether the write itself succeeds is the file system's answer.
\<close>

theorem xlsx_name:
  assumes "candidates \<noteq> []" and "file \<noteq> []" and "py_lower output_format = ''xlsx''"
    and "\<not> py_endswith (py_lower file) ''.xlsx''"
  shows "\<exists>target.
           display_ranking can_write option_number option_title candidates output_format (Some file)
             = (if can_write target then [SavedTo Xlsx target] else [ErrorWriting Xlsx target])
         \<and> target = (let renamed = py_replace ''.csv'' ''.xlsx'' (py_replace ''.txt'' ''.xlsx'' file)
                     in if py_endswith renamed ''.xlsx'' then renamed else renamed @ ''.xlsx'')
         \<and> py_endswith target ''.xlsx''
         \<and> (\<forall>base. file = base @ ''.csv'' \<and> CHR ''.'' \<notin> set base \<longrightarrow> target = base @ ''.xlsx'')
         \<and> (\<forall>base. file = base @ ''.txt'' \<and> CHR ''.'' \<notin> set base \<longrightarrow> target = base @ ''.xlsx'')
         \<and> (CHR ''.'' \<notin> set file \<longrightarrow> target = file @ ''.xlsx'')"
proof -
  define target where "target = output_name ''.xlsx'' ''.txt'' ''.csv'' file"
  have d: "display_ranking can_write option_number option_title candidates output_format (Some file)
             = (if can_write target then [SavedTo Xlsx target] else [ErrorWriting Xlsx target])"
    using assms(1-3) by (simp add: display_ranking_def target_def)
  note eq = output_name_xlsx_eq [OF assms(4), folded target_def]
  have e: "py_endswith target ''.xlsx''"
    unfolding target_def using assms(4) by (rule output_name_xlsx)
  have case_csv: "target = base @ ''.xlsx''" if "file = base @ ''.csv''" "CHR ''.'' \<notin> set base" for base
    using that py_replace_dotless(1,2) [OF that(2)]
    by (simp add: eq py_endswith_def suffix_def)
  have case_txt: "target = base @ ''.xlsx''" if "file = base @ ''.txt''" "CHR ''.'' \<notin> set base" for base
    using that py_replace_dotless(3,4) [OF that(2)]
    by (simp add: eq py_endswith_def suffix_def)
  have case_plain: "target = file @ ''.xlsx''" if "CHR ''.'' \<notin> set file"
  proof -
    from that have "\<not> suffix ''.xlsx'' file" by (auto simp: suffix_def)
    with py_replace_dotless(5,6) [OF that] show ?thesis
      by (simp add: eq py_endswith_def)
  qed
  from d eq e case_csv case_txt case_plain show ?thesis by blast
qed

theorem xlsx_name_witness:
  "display_ranking (\<lambda>f. True) ''7'' ''Analyst'' [cand ''1'' (Finite 1)] ''XLSX'' (Some ''out.csv'')
     = [SavedTo Xlsx ''out.xlsx'']
   \<and> output_name ''.xlsx'' ''.txt'' ''.csv'' ''out.txt'' = ''out.xlsx''
   \<and> output_name ''.xlsx'' ''.txt'' ''.csv'' ''out'' = ''out.xlsx''
   \<and> output_name ''.xlsx'' ''.txt'' ''.csv'' ''my.csv.bak'' = ''my.xlsx.bak.xlsx''"
proof -
  have h1: "[cand ''1'' (Finite 1)] \<noteq> []" by simp
  have h2: "''out.csv'' \<noteq> []" by simp
  have h3: "py_lower ''XLSX'' = ''xlsx''" by code_simp
  have h4: "\<not> py_endswith (py_lower ''out.csv'') ''.xlsx''" by code_simp
  have n: "output_name ''.xlsx'' ''.txt'' ''.csv'' ''out.csv'' = ''out.xlsx''"
    "output_name ''.xlsx'' ''.txt'' ''.csv'' ''out.txt'' = ''out.xlsx''"
    "output_name ''.xlsx'' ''.txt'' ''.csv'' ''out'' = ''out.xlsx''"
    "output_name ''.xlsx'' ''.txt'' ''.csv'' ''my.csv.bak'' = ''my.xlsx.bak.xlsx''"
    by code_simp+
  from xlsx_name [OF h1 h2 h3 h4, of "\<lambda>f. True" "''7''" "''Analyst''"]
  show ?thesis by (simp add: display_ranking_def h3 n)
qed





section \<open>The matcher finds exactly the matches\<close>

lemma take_takeWhile_all: "k \<le> length (takeWhile P s) \<Longrightarrow> list_all P (take k s)"
  by (induction s arbitrary: k) (auto simp: take_Cons' split: if_splits)

lemma rep_lengths_ok: "k \<in> set (rep_lengths cls q s) \<Longrightarrow> item_ok (cls, q, g) (take k s)"
proof (cases q)
  case Once
  assume "k \<in> set (rep_lengths cls q s)"
  with Once show ?thesis
    by (cases s) (auto simp: item_ok_def split: if_splits)
next
  case Star
  assume "k \<in> set (rep_lengths cls q s)"
  with Star have "k \<le> length (takeWhile cls s)" by auto
  with Star show ?thesis by (simp add: item_ok_def take_takeWhile_all)
next
  case Plus
  assume "k \<in> set (rep_lengths cls q s)"
  with Plus have k: "k \<le> length (takeWhile cls s)" "1 \<le> k" by auto
  then have "k \<le> length s" using length_takeWhile_le [of cls s] by linarith
  with k Plus show ?thesis by (auto simp: item_ok_def take_takeWhile_all)
qed

lemma match_items_sound: "match_items pat s = Some ps \<Longrightarrow> matches pat ps"
proof (induction pat arbitrary: s ps)
  case Nil
  then show ?case by (simp add: matches_def)
next
  case (Cons it its)
  from Cons.prems obtain k qs where
    k: "k \<in> set (rep_lengths (fst it) (fst (snd it)) s)" and
    qs: "match_items its (drop k s) = Some qs" and ps: "ps = take k s # qs"
    by (auto dest!: first_some_SomeD)
  from rep_lengths_ok [OF k, of "snd (snd it)"] have "item_ok it (take k s)" by simp
  with Cons.IH [OF qs] ps show ?case by (simp add: matches_def)
qed

lemma first_some_complete: "x \<in> set xs \<Longrightarrow> f x \<noteq> None \<Longrightarrow> first_some f xs \<noteq> None"
  by (induction xs) (auto split: option.splits)

lemma all_takeWhile_length: "list_all P p \<Longrightarrow> length p \<le> length (takeWhile P (p @ r))"
  by (induction p) auto

lemma rep_lengths_complete:
  "item_ok (cls, q, g) p \<Longrightarrow> length p \<in> set (rep_lengths cls q (p @ r))"
proof (cases q)
  case Once
  assume "item_ok (cls, q, g) p"
  with Once obtain c where "p = [c]" "cls c"
    by (cases p) (auto simp: item_ok_def)
  with Once show ?thesis by simp
next
  case Star
  assume "item_ok (cls, q, g) p"
  with Star have "list_all cls p" by (simp add: item_ok_def)
  from all_takeWhile_length [OF this, of r] Star show ?thesis by auto
next
  case Plus
  assume "item_ok (cls, q, g) p"
  with Plus have "list_all cls p" "p \<noteq> []" by (simp_all add: item_ok_def)
  with all_takeWhile_length [of cls p r] Plus show ?thesis
    by (cases p) auto
qed

lemma match_items_complete:
  "matches pat ps \<Longrightarrow> match_items pat (concat ps @ r) \<noteq> None"
  unfolding matches_def
proof (induction pat ps rule: list_all2_induct)
  case Nil
  then show ?case by simp
next
  case (Cons it its p ps)
  let ?s = "concat (p # ps) @ r"
  from Cons.hyps(1) have "item_ok (fst it, fst (snd it), snd (snd it)) p" by simp
  from rep_lengths_complete [OF this, of "concat ps @ r"]
  have k: "length p \<in> set (rep_lengths (fst it) (fst (snd it)) ?s)" by simp
  have "map_option ((#) (take (length p) ?s)) (match_items its (drop (length p) ?s)) \<noteq> None"
    using Cons.IH by simp
  with k show ?case
    by (simp only: match_items.simps) (rule first_some_complete)
qed

lemma first_some_leftmost:
  "first_some f xs = Some y
   \<Longrightarrow> \<exists>i<length xs. f (xs ! i) = Some y \<and> (\<forall>j<i. f (xs ! j) = None)"
proof (induction xs)
  case Nil
  then show ?case by simp
next
  case (Cons x xs)
  show ?case
  proof (cases "f x")
    case None
    with Cons obtain i where i: "i < length xs" "f (xs ! i) = Some y" "\<forall>j<i. f (xs ! j) = None"
      by auto
    have "\<forall>j<Suc i. f ((x # xs) ! j) = None"
    proof (intro allI impI)
      fix j assume "j < Suc i"
      with i(3) None show "f ((x # xs) ! j) = None" by (cases j) auto
    qed
    with i show ?thesis by (intro exI [of _ "Suc i"]) simp
  next
    case (Some z)
    with Cons.prems show ?thesis by (intro exI [of _ 0]) simp
  qed
qed

lemma re_search_leftmost:
  assumes "re_search pat s = Some (i, ps)"
  shows "i \<le> length s \<and> match_items pat (drop i s) = Some ps
         \<and> (\<forall>j<i. match_items pat (drop j s) = None)"
proof -
  let ?f = "\<lambda>i. map_option (Pair i) (match_items pat (drop i s))"
  from assms have "first_some ?f [0..<Suc (length s)] = Some (i, ps)"
    by (simp add: re_search_def)
  from first_some_leftmost [OF this] obtain n where
    n: "n < Suc (length s)" "?f ([0..<Suc (length s)] ! n) = Some (i, ps)"
       "\<forall>j<n. ?f ([0..<Suc (length s)] ! j) = None"
    by auto
  from n(1) have nth: "[0..<Suc (length s)] ! n = n"
    by (metis add_0 nth_upt)
  with n(2) have ni: "n = i" and m: "match_items pat (drop i s) = Some ps" by auto
  have "\<forall>j<i. match_items pat (drop j s) = None"
  proof (intro allI impI)
    fix j assume j: "j < i"
    with ni n(1) have "[0..<Suc (length s)] ! j = j" by (metis add_0 nth_upt less_trans)
    with n(3) j ni show "match_items pat (drop j s) = None" by auto
  qed
  with m n(1) ni show ?thesis by simp
qed

lemma re_search_complete:
  assumes "matches pat ps"
  shows "re_search pat (pre @ concat ps @ post) \<noteq> None"
proof -
  let ?s = "pre @ concat ps @ post"
  have "match_items pat (drop (length pre) ?s) \<noteq> None"
    using match_items_complete [OF assms, of post] by simp
  then have "map_option (Pair (length pre)) (match_items pat (drop (length pre) ?s)) \<noteq> None"
    by simp
  moreover have "length pre \<in> set [0..<Suc (length ?s)]" by auto
  ultimately show ?thesis
    unfolding re_search_def by (rule first_some_complete [rotated])
qed

section \<open>The groups of the primary pattern and their coercions\<close>

lemma is_digit_facts:
  assumes "is_digit c"
  shows "\<not> is_space c" "c \<noteq> CHR ''.''" "c \<noteq> CHR ''_''" "c \<noteq> CHR ''-''" "c \<noteq> CHR ''+''"
    "\<not> is_exp_char c" "lower_char c = c" "c \<noteq> CHR ''i''" "c \<noteq> CHR ''n''"
  using assms
  by (auto simp: is_digit_def is_space_def is_exp_char_def lower_char_def Let_def)

lemma digits_valid: "digits s \<Longrightarrow> valid_digitpart s"
  unfolding digits_def
  by (induction s rule: valid_digitpart.induct) (auto dest: is_digit_facts(3))

lemma py_strip_id:
  assumes "s \<noteq> []" "\<not> is_space (hd s)" "\<not> is_space (last s)"
  shows "py_strip s = s"
proof -
  from assms(2) have a: "dropWhile is_space s = s" by (simp add: dropWhile_eq_self_iff)
  from assms(1) have "hd (rev s) = last s" by (simp add: hd_rev)
  with assms(3) have "dropWhile is_space (rev s) = rev s"
    by (simp add: dropWhile_eq_self_iff)
  with a show ?thesis by (simp add: py_strip_def)
qed

lemma digits_hd_last:
  assumes "digits s"
  shows "s \<noteq> []" "is_digit (hd s)" "is_digit (last s)"
  using assms by (auto simp: digits_def list_all_iff)

lemma split_sign_digits: "digits s \<Longrightarrow> split_sign s = (False, s)"
  by (cases s) (auto simp: split_sign_def digits_def dest: is_digit_facts)

lemma digits_filter: "digits s \<Longrightarrow> filter is_digit s = s"
  by (simp add: digits_def list_all_iff)

lemma py_int_digits:
  assumes "digits s"
  shows "py_int s = (if length s \<le> max_str_digits then Some (int (nat_of_digits s)) else None)"
proof -
  from assms have "py_strip s = s"
    by (intro py_strip_id) (auto dest: digits_hd_last is_digit_facts(1))
  with assms show ?thesis
    by (simp add: py_int_def split_sign_digits digits_valid digits_filter)
qed

lemma digits_no_dot: "digits d \<Longrightarrow> \<forall>c\<in>set d. c \<noteq> CHR ''.''"
  by (auto simp: digits_def list_all_iff dest: is_digit_facts(2))

lemma digits_takeWhile_dot:
  assumes "digits d1"
  shows "takeWhile (\<lambda>c. c \<noteq> CHR ''.'') (d1 @ CHR ''.'' # d2) = d1"
    and "dropWhile (\<lambda>c. c \<noteq> CHR ''.'') (d1 @ CHR ''.'' # d2) = CHR ''.'' # d2"
proof -
  from digits_no_dot [OF assms] have a: "\<And>c. c \<in> set d1 \<Longrightarrow> c \<noteq> CHR ''.''" by blast
  show "takeWhile (\<lambda>c. c \<noteq> CHR ''.'') (d1 @ CHR ''.'' # d2) = d1"
    by (subst takeWhile_append2) (use a in simp_all)
  show "dropWhile (\<lambda>c. c \<noteq> CHR ''.'') (d1 @ CHR ''.'' # d2) = CHR ''.'' # d2"
    by (subst dropWhile_append2) (use a in simp_all)
qed


lemma digits_append_dot:
  assumes "digits d1" "digits d2"
  shows "\<forall>c\<in>set (d1 @ CHR ''.'' # d2). \<not> is_exp_char c"
proof -
  have "\<not> is_exp_char CHR ''.''" by (simp add: is_exp_char_def)
  moreover from assms have "\<forall>c\<in>set d1 \<union> set d2. \<not> is_exp_char c"
    by (auto simp: digits_def list_all_iff dest: is_digit_facts(6))
  ultimately show ?thesis by auto
qed

lemma parse_mantissa_decimal:
  assumes "digits d1" "digits d2"
  shows "parse_mantissa (d1 @ CHR ''.'' # d2) = Some (d1, d2)"
proof -
  from assms have "valid_digitpart d1" "valid_digitpart d2" "d1 \<noteq> []"
    by (auto intro: digits_valid simp: digits_def)
  then show ?thesis
    unfolding parse_mantissa_def digits_takeWhile_dot [OF assms(1)] Let_def
    by simp
qed

lemma parse_finite_decimal:
  assumes "digits d1" "digits d2"
  shows "parse_finite (d1 @ CHR ''.'' # d2) = Some (decimal_value d1 d2)"
proof -
  let ?s = "d1 @ CHR ''.'' # d2"
  from digits_append_dot [OF assms]
  have t: "takeWhile (\<lambda>c. \<not> is_exp_char c) ?s = ?s" and d: "dropWhile (\<lambda>c. \<not> is_exp_char c) ?s = []"
    by (simp_all add: takeWhile_eq_all_conv)
  have f: "filter is_digit d1 = d1" "filter is_digit d2 = d2"
    using assms by (simp_all add: digits_filter)
  show ?thesis
    unfolding parse_finite_def t d Let_def parse_mantissa_decimal [OF assms]
    by (simp add: f scale10_def decimal_value_def)
qed

lemma py_lower_digit_hd:
  assumes "is_digit c"
  shows "py_lower (c # s) \<noteq> ''inf''" "py_lower (c # s) \<noteq> ''infinity''" "py_lower (c # s) \<noteq> ''nan''"
  using is_digit_facts(7-9) [OF assms] by (auto simp: py_lower_def)

lemma py_float_decimal:
  assumes "digits d1" "digits d2"
  shows "py_float (d1 @ CHR ''.'' # d2) = Some (Finite (decimal_value d1 d2))"
proof -
  let ?s = "d1 @ CHR ''.'' # d2"
  from assms(1) obtain c r where d1: "d1 = c # r" and c: "is_digit c"
    by (cases d1) (auto simp: digits_def)
  from assms(2) have l: "is_digit (last ?s)"
    by (auto simp: digits_def list_all_iff)
  have "py_strip ?s = ?s"
  proof (rule py_strip_id)
    show "?s \<noteq> []" by simp
    show "\<not> is_space (hd ?s)" using c by (simp add: d1 is_digit_facts(1))
    show "\<not> is_space (last ?s)" using l by (rule is_digit_facts(1))
  qed
  moreover have "split_sign ?s = (False, ?s)"
    using is_digit_facts(4,5) [OF c] by (simp add: d1 split_sign_def)
  moreover have "py_lower ?s \<noteq> ''inf''" "py_lower ?s \<noteq> ''infinity''" "py_lower ?s \<noteq> ''nan''"
    unfolding d1 using py_lower_digit_hd [OF c] by simp_all
  ultimately show ?thesis
    unfolding py_float_def by (simp add: parse_finite_decimal [OF assms])
qed


lemma item_ok_simps:
  "item_ok (cls, Plus, g) p = (p \<noteq> [] \<and> list_all cls p)"
  "item_ok (cls, Star, g) p = list_all cls p"
  "item_ok (lit c g) p = (p = [c])"
  by (auto simp: item_ok_def lit_def length_Suc_conv)

lemma primary_pattern_pieces:
  assumes "matches primary_pattern pieces"
  shows "\<exists>reg w1 nm w2 a1 b1 w3 n1 w4 a2 b2 w5 n2 w6 a3 b3.
           pieces = [reg, '','', w1, nm, '','', w2, a1, ''.'', b1, '','', w3, n1, '','', w4,
                     a2, ''.'', b2, '','', w5, n2, '','', w6, a3, ''.'', b3]
         \<and> digits reg \<and> nm \<noteq> [] \<and> list_all is_name_char nm
         \<and> digits a1 \<and> digits b1 \<and> digits n1 \<and> digits a2 \<and> digits b2 \<and> digits n2
         \<and> digits a3 \<and> digits b3
         \<and> list_all is_space w1 \<and> list_all is_space w2 \<and> list_all is_space w3
         \<and> list_all is_space w4 \<and> list_all is_space w5 \<and> list_all is_space w6"
  using assms
  unfolding matches_def primary_pattern_def int_items_def sep_items_def dec_items_def
  by (simp add: list_all2_Cons1 item_ok_simps digits_def) blast


lemma primary_groups_of_pieces:
  "re_groups primary_pattern 7
     [reg, c1, w1, nm, c2, w2, a1, d1, b1, c3, w3, n1, c4, w4,
      a2, d2, b2, c5, w5, n2, c6, w6, a3, d3, b3]
   = [reg, nm, a1 @ d1 @ b1, n1, a2 @ d2 @ b2, n2, a3 @ d3 @ b3]"
  by (simp add: re_groups_def re_group_def primary_pattern_def int_items_def sep_items_def
      dec_items_def lit_def upt_rec)

lemma primary_match_groups:
  assumes "primary_match chunk = Some groups"
  shows "\<exists>reg nm a1 b1 n1 a2 b2 n2 a3 b3.
           groups = [reg, nm, a1 @ CHR ''.'' # b1, n1, a2 @ CHR ''.'' # b2, n2, a3 @ CHR ''.'' # b3]
         \<and> digits reg \<and> nm \<noteq> [] \<and> list_all is_name_char nm
         \<and> digits a1 \<and> digits b1 \<and> digits n1 \<and> digits a2 \<and> digits b2 \<and> digits n2
         \<and> digits a3 \<and> digits b3"
proof -
  from assms obtain i pieces where
    s: "re_search primary_pattern chunk = Some (i, pieces)"
    and g: "groups = re_groups primary_pattern 7 pieces"
    by (auto simp: primary_match_def)
  from s have "match_items primary_pattern (drop i chunk) = Some pieces"
    by (auto simp: re_search_def dest!: first_some_SomeD)
  then have "matches primary_pattern pieces" by (rule match_items_sound)
  from primary_pattern_pieces [OF this] obtain reg w1 nm w2 a1 b1 w3 n1 w4 a2 b2 w5 n2 w6 a3 b3
    where p: "pieces = [reg, '','', w1, nm, '','', w2, a1, ''.'', b1, '','', w3, n1, '','', w4,
                     a2, ''.'', b2, '','', w5, n2, '','', w6, a3, ''.'', b3]"
      and d: "digits reg" "nm \<noteq> []" "list_all is_name_char nm"
        "digits a1" "digits b1" "digits n1" "digits a2" "digits b2" "digits n2"
        "digits a3" "digits b3"
    by blast
  have "groups = [reg, nm, a1 @ CHR ''.'' # b1, n1, a2 @ CHR ''.'' # b2, n2, a3 @ CHR ''.'' # b3]"
    unfolding g p primary_groups_of_pieces by simp
  with d show ?thesis by blast
qed

lemma takeWhile_all_stop:
  assumes "list_all P p" "r = [] \<or> \<not> P (hd r)"
  shows "takeWhile P (p @ r) = p"
proof -
  from assms(2) have "takeWhile P r = []" by (cases r) auto
  with assms(1) show ?thesis by (simp add: takeWhile_append2 list_all_iff)
qed

lemma rev_upt_Suc: "m \<le> n \<Longrightarrow> rev [m..<Suc n] = n # rev [m..<n]"
  by simp

lemma greedy_match: "greedy pat ps r \<Longrightarrow> match_items pat (concat ps @ r) = Some ps"
proof (induction pat ps r rule: greedy.induct)
  case (1 r)
  then show ?case by simp
next
  case (2 it its p ps r)
  obtain cls q g where it: "it = (cls, q, g)" by (cases it) auto
  let ?rest = "concat ps @ r"
  from "2.prems" have ok: "item_ok (cls, q, g) p" and IH: "match_items its ?rest = Some ps"
    and stop: "q = Once \<or> ?rest = [] \<or> \<not> cls (hd ?rest)"
    using "2.IH" by (auto simp: it)
  show ?case
  proof (cases q)
    case Once
    with ok obtain c where p: "p = [c]" and c: "cls c"
      by (auto simp: item_ok_def length_Suc_conv)
    show ?thesis by (simp add: it Once p c IH)
  next
    case Star
    with ok stop have t: "takeWhile cls (p @ ?rest) = p"
      by (intro takeWhile_all_stop) (auto simp: item_ok_def)
    have "rep_lengths cls Star (p @ ?rest) = length p # rev [0..<length p]"
      unfolding rep_lengths.simps t by (rule rev_upt_Suc) simp
    then show ?thesis
      unfolding it Star concat.simps append_assoc match_items.simps fst_conv snd_conv
      by (simp add: IH)
  next
    case Plus
    with ok stop have t: "takeWhile cls (p @ ?rest) = p" and ne: "p \<noteq> []"
      by (auto intro!: takeWhile_all_stop simp: item_ok_def)
    from ne have "1 \<le> length p" by (cases p) auto
    then have "rep_lengths cls Plus (p @ ?rest) = length p # rev [1..<length p]"
      unfolding rep_lengths.simps t by (rule rev_upt_Suc)
    then show ?thesis
      unfolding it Plus concat.simps append_assoc match_items.simps fst_conv snd_conv
      by (simp add: IH)
  qed
qed simp_all

lemma re_search_at_start:
  "match_items pat s = Some ps \<Longrightarrow> re_search pat s = Some (0, ps)"
  by (simp add: re_search_def upt_rec [of 0] del: upt_Suc)

lemma char_class_facts:
  "is_digit CHR ''1''" "is_digit CHR ''0''" "is_digit CHR ''7''" "is_space CHR '' ''"
  "is_name_char CHR ''A''" "\<not> is_space CHR ''A''" "\<not> is_name_char CHR '',''"
  "\<not> is_digit CHR '',''" "\<not> is_digit CHR ''.''" "\<not> is_space CHR ''1''"
  by code_simp+

lemma lit_quant: "fst (snd (lit c g)) = Once"
  by (simp add: lit_def)

lemma primary_match_long:
  assumes "digits big"
  shows "primary_match (''1, A, 1.0, '' @ big @ '', 1.0, 1, 1.0'')
         = Some [''1'', ''A'', ''1.0'', big, ''1.0'', ''1'', ''1.0'']"
proof -
  let ?ps = "[''1'', '','', '' '', ''A'', '','', '' '', ''1'', ''.'', ''0'', '','', '' '', big,
              '','', '' '', ''1'', ''.'', ''0'', '','', '' '', ''1'', '','', '' '', ''1'', ''.'', ''0'']"
  from assms have b: "big \<noteq> []" "list_all is_digit big" "\<not> is_space (hd big)"
    by (auto simp: digits_def list_all_iff dest: is_digit_facts(1))
  have "greedy primary_pattern ?ps []"
    unfolding primary_pattern_def int_items_def sep_items_def dec_items_def
    by (simp add: item_ok_simps char_class_facts b lit_quant)
  from greedy_match [OF this]
  have "match_items primary_pattern (''1, A, 1.0, '' @ big @ '', 1.0, 1, 1.0'') = Some ?ps"
    by simp
  from re_search_at_start [OF this] show ?thesis
    unfolding primary_match_def by (simp add: primary_groups_of_pieces)
qed

text \<open>
  Claim C1, as amended. For every chunk in which the primary pattern is found, with the two
  integer groups (the fourth and the sixth) of at most 4300 digits: the groups are seven,
  the three floats and the two integers can be read from them, the chunk adds exactly
  one entry, the seven groups, to the entries and reports nothing, and the loop over the
  entries turns that entry into exactly one record and reports nothing: registration and
  name are the first two groups stripped, \<^verbatim>\<open>p1_score\<close>, \<^verbatim>\<open>p2_score\<close> and \<^verbatim>\<open>final_score\<close> the
  floats of the third, fifth and seventh, \<^verbatim>\<open>p1_correct\<close> and \<^verbatim>\<open>p2_correct\<close> the integers of the
  fourth and sixth.
\<close>

theorem primary_match_one_record:
  assumes "primary_match chunk = Some groups"
    and "length (groups ! 3) \<le> max_str_digits" and "length (groups ! 5) \<le> max_str_digits"
  shows "\<exists>s1 c1 s2 c2 fs.
           length groups = 7
         \<and> py_float (groups ! 2) = Some s1 \<and> py_int (groups ! 3) = Some c1
         \<and> py_float (groups ! 4) = Some s2 \<and> py_int (groups ! 5) = Some c2
         \<and> py_float (groups ! 6) = Some fs
         \<and> extract_entry chunk st = st\<lparr>entries := entries st @ [groups]\<rparr>
         \<and> process_entry (candidates, evs) groups
             = (candidates @ [\<lparr>registration = py_strip (groups ! 0), name = py_strip (groups ! 1),
                               p1_score = s1, p1_correct = c1, p2_score = s2, p2_correct = c2,
                               final_score = fs\<rparr>], evs)"
proof -
  from primary_match_groups [OF assms(1)] obtain reg nm a1 b1 n1 a2 b2 n2 a3 b3 where
    g: "groups = [reg, nm, a1 @ CHR ''.'' # b1, n1, a2 @ CHR ''.'' # b2, n2, a3 @ CHR ''.'' # b3]"
    and d: "digits a1" "digits b1" "digits n1" "digits a2" "digits b2" "digits n2"
      "digits a3" "digits b3"
    by blast
  from assms(2,3) have l: "length n1 \<le> max_str_digits" "length n2 \<le> max_str_digits"
    by (simp_all add: g)
  have f: "py_float (a1 @ CHR ''.'' # b1) = Some (Finite (decimal_value a1 b1))"
    "py_float (a2 @ CHR ''.'' # b2) = Some (Finite (decimal_value a2 b2))"
    "py_float (a3 @ CHR ''.'' # b3) = Some (Finite (decimal_value a3 b3))"
    using d by (simp_all add: py_float_decimal)
  have i: "py_int n1 = Some (int (nat_of_digits n1))" "py_int n2 = Some (int (nat_of_digits n2))"
    using d l by (simp_all add: py_int_digits)
  have e: "extract_entry chunk st = st\<lparr>entries := entries st @ [groups]\<rparr>"
    using assms(1) by (simp add: extract_entry_def)
  have m: "make_candidate groups
           = Some \<lparr>registration = py_strip reg, name = py_strip nm,
                   p1_score = Finite (decimal_value a1 b1), p1_correct = int (nat_of_digits n1),
                   p2_score = Finite (decimal_value a2 b2), p2_correct = int (nat_of_digits n2),
                   final_score = Finite (decimal_value a3 b3)\<rparr>"
    unfolding g make_candidate_def by (simp add: f i)
  show ?thesis
    unfolding process_entry_def m e
    by (simp add: g f i)
qed

theorem primary_match_one_record_witness:
  "process_entry ([], []) [''12345'', ''Maria da Silva '', ''8.50'', ''17'', ''9.25'', ''18'', ''8.88'']
     = ([\<lparr>registration = ''12345'', name = ''Maria da Silva'', p1_score = Finite (17 / 2),
          p1_correct = 17, p2_score = Finite (37 / 4), p2_correct = 18,
          final_score = Finite (222 / 25)\<rparr>], [])
   \<and> entries (extract_entry ''x 12345, Maria da Silva ,8.50, 17,  9.25, 18, 8.88 y'' initial_state)
     = [[''12345'', ''Maria da Silva '', ''8.50'', ''17'', ''9.25'', ''18'', ''8.88'']]"
proof -
  let ?g = "[''12345'', ''Maria da Silva '', ''8.50'', ''17'', ''9.25'', ''18'', ''8.88'']"
  have h1: "primary_match ''x 12345, Maria da Silva ,8.50, 17,  9.25, 18, 8.88 y'' = Some ?g"
    by code_simp
  have h2: "length (?g ! 3) \<le> max_str_digits" "length (?g ! 5) \<le> max_str_digits"
    by (simp_all add: max_str_digits_def)
  have v: "py_float ''8.50'' = Some (Finite (17 / 2))" "py_float ''9.25'' = Some (Finite (37 / 4))"
    "py_float ''8.88'' = Some (Finite (222 / 25))" "py_int ''17'' = Some 17" "py_int ''18'' = Some 18"
    "py_strip ''12345'' = ''12345''" "py_strip ''Maria da Silva '' = ''Maria da Silva''"
    by code_simp+
  from primary_match_one_record [OF h1 h2, of initial_state "[]" "[]"]
  show ?thesis by (simp add: v initial_state_def)
qed

text \<open>
  Without the bound on the digits the claim fails. The pattern \<^verbatim>\<open>(\d+)\<close> takes a run of
  digits of any length, and \<^verbatim>\<open>int\<close> raises \<^verbatim>\<open>ValueError\<close> on more than 4300 of them: on
  the chunk \<^verbatim>\<open>1, A, 1.0, 7...7, 1.0, 1, 1.0\<close> with 4301 sevens the pattern is found, and
  the handler of lines 183-185 reports the entry, which gives no record.
\<close>

theorem long_integer_counterexample:
  "primary_match (''1, A, 1.0, '' @ replicate 4301 CHR ''7'' @ '', 1.0, 1, 1.0'')
     = Some [''1'', ''A'', ''1.0'', replicate 4301 CHR ''7'', ''1.0'', ''1'', ''1.0'']
   \<and> process_entry ([], []) [''1'', ''A'', ''1.0'', replicate 4301 CHR ''7'', ''1.0'', ''1'', ''1.0'']
     = ([], [ErrorProcessingCandidate [''1'', ''A'', ''1.0'', replicate 4301 CHR ''7'', ''1.0'', ''1'', ''1.0'']])"
proof -
  have d: "digits (replicate 4301 CHR ''7'')"
    by (simp add: digits_def list_all_iff char_class_facts)
  have "py_int (replicate 4301 CHR ''7'') = None"
    by (simp add: py_int_digits [OF d] max_str_digits_def)
  then have "make_candidate [''1'', ''A'', ''1.0'', replicate 4301 CHR ''7'', ''1.0'', ''1'', ''1.0''] = None"
    by (simp add: make_candidate_def split: option.splits)
  with primary_match_long [OF d] show ?thesis
    by (simp add: process_entry_def)
qed

end
